theory Spec2Isabelle
  imports Main
begin

section \<open>Data model of \<open>main.cpp\<close>\<close>

datatype Associativity = LEFT | RIGHT

record OperatorPrecedence =
  prec :: int
  assoc :: Associativity

datatype TokenType =
  ADD | SUBTRACT | MULTIPLY | DIVIDE | POWER
  | NUMBER | LEFT_PAREN | RIGHT_PAREN | ILLEGAL_CHARACTER | END_OF_FILE

text \<open>The enumerators' integer values: \<open>ADD = 0\<close> up to \<open>POWER = 4\<close> are written in the
  source, the others continue the count.\<close>

fun enum_value :: "TokenType \<Rightarrow> int" where
  "enum_value ADD = 0"
| "enum_value SUBTRACT = 1"
| "enum_value MULTIPLY = 2"
| "enum_value DIVIDE = 3"
| "enum_value POWER = 4"
| "enum_value NUMBER = 5"
| "enum_value LEFT_PAREN = 6"
| "enum_value RIGHT_PAREN = 7"
| "enum_value ILLEGAL_CHARACTER = 8"
| "enum_value END_OF_FILE = 9"

definition OperatorMap :: "OperatorPrecedence list" where
  "OperatorMap =
    [\<lparr>prec = 1, assoc = LEFT\<rparr>,
     \<lparr>prec = 1, assoc = LEFT\<rparr>,
     \<lparr>prec = 2, assoc = LEFT\<rparr>,
     \<lparr>prec = 2, assoc = LEFT\<rparr>,
     \<lparr>prec = 3, assoc = RIGHT\<rparr>]"

text \<open>A token's \<open>string_view\<close> is a pointer into the lexer's buffer and a length: the
  pointer is kept as the offset of \<open>data()\<close> from the start of the buffer.\<close>

record Token =
  string_data :: nat
  string_size :: nat
  type :: TokenType

text \<open>The characters the source names.\<close>

abbreviation NUL :: char where "NUL \<equiv> CHR 0x00"
abbreviation TAB :: char where "TAB \<equiv> CHR 0x09"
abbreviation LF :: char where "LF \<equiv> CHR 0x0A"
abbreviation CR :: char where "CR \<equiv> CHR 0x0D"

section \<open>Lexer\<close>

text \<open>The field \<open>end\<close> of the source is \<open>lexer_end\<close> here.\<close>

record Lexer =
  source :: string
  current_position :: nat
  lexer_end :: nat

definition Lexer_new :: "string \<Rightarrow> Lexer" where
  "Lexer_new src = \<lparr>source = src, current_position = 0, lexer_end = length src\<rparr>"

text \<open>\<open>source[i]\<close> of a \<open>std::string\<close>: the character at \<open>i\<close>, and the terminator at
  \<open>i = size()\<close>. The lexer reads at \<open>current_position\<close> and \<open>current_position + 1\<close>
  only when \<open>current_position < end\<close>, so it never indexes past \<open>size()\<close>.\<close>

definition char_at :: "string \<Rightarrow> nat \<Rightarrow> char" where
  "char_at s i = (if i < length s then s ! i else NUL)"

text \<open>\<open>isdigit\<close> of the C locale: the ten decimal digits, and false on every other byte.\<close>

definition isdigit :: "char \<Rightarrow> bool" where
  "isdigit c = (c \<in> set ''0123456789'')"

definition make_simple_token :: "Lexer \<Rightarrow> TokenType \<Rightarrow> Token" where
  "make_simple_token L ty =
     \<lparr>string_data = current_position L, string_size = 1, type = ty\<rparr>"

definition is_at_end :: "Lexer \<Rightarrow> bool" where
  "is_at_end L = (current_position L \<ge> lexer_end L)"

definition peek :: "Lexer \<Rightarrow> char" where
  "peek L = (if is_at_end L then NUL else char_at (source L) (current_position L))"

definition peek_next :: "Lexer \<Rightarrow> char" where
  "peek_next L = (if is_at_end L then NUL else char_at (source L) (current_position L + 1))"

text \<open>\<open>read_next\<close> returns the character and the lexer with the cursor moved.\<close>

definition read_next :: "Lexer \<Rightarrow> char \<times> Lexer" where
  "read_next L =
     (if is_at_end L then (NUL, L)
      else (char_at (source L) (current_position L),
            L\<lparr>current_position := current_position L + 1\<rparr>))"

definition is_space :: "char \<Rightarrow> bool" where
  "is_space c = (c = LF \<or> c = TAB \<or> c = CR \<or> c = CHR '' '')"

function skip_whitespace :: "Lexer \<Rightarrow> Lexer" where
  "skip_whitespace L =
     (let c = peek L in
      if is_space c then skip_whitespace (snd (read_next L)) else L)"
  by pat_completeness auto
termination
  by (relation "measure (\<lambda>L. lexer_end L - current_position L)")
     (auto simp: peek_def read_next_def is_at_end_def is_space_def split: if_splits)

function number_loop :: "Lexer \<Rightarrow> Lexer" where
  "number_loop L =
     (let c = peek L in
      if \<not> isdigit c then L else number_loop (snd (read_next L)))"
  by pat_completeness auto
termination
  by (relation "measure (\<lambda>L. lexer_end L - current_position L)")
     (auto simp: peek_def read_next_def is_at_end_def isdigit_def split: if_splits)

definition number :: "Lexer \<Rightarrow> Token \<times> Lexer" where
  "number L =
     (let start = current_position L;
          L1 = snd (read_next L);
          L2 = number_loop L1
      in (\<lparr>string_data = start, string_size = current_position L2 - start, type = NUMBER\<rparr>, L2))"

definition next_token :: "Lexer \<Rightarrow> Token \<times> Lexer" where
  "next_token L0 =
     (let L = skip_whitespace L0;
          c = peek L
      in if isdigit c then number L
         else if c = CHR ''+'' then (make_simple_token L ADD, snd (read_next L))
         else if c = CHR ''-'' then (make_simple_token L SUBTRACT, snd (read_next L))
         else if c = CHR ''*'' then
           (if peek_next L = CHR ''*''
            then (\<lparr>string_data = current_position L, string_size = 2, type = POWER\<rparr>,
                  snd (read_next (snd (read_next L))))
            else (make_simple_token L MULTIPLY, snd (read_next L)))
         else if c = CHR ''/'' then (make_simple_token L DIVIDE, snd (read_next L))
         else if c = CHR ''('' then (make_simple_token L LEFT_PAREN, snd (read_next L))
         else if c = CHR '')'' then (make_simple_token L RIGHT_PAREN, snd (read_next L))
         else ((if c = NUL then make_simple_token L END_OF_FILE
                else make_simple_token L ILLEGAL_CHARACTER),
               snd (read_next L)))"

section \<open>Parser\<close>

record Parser =
  lexer :: Lexer
  token :: Token

text \<open>The constructor leaves \<open>token\<close> uninitialised; every path of \<open>parse\<close> assigns it
  (in \<open>compute_atom\<close>) before reading it. The model starts from a fixed token.\<close>

definition Parser_new :: "Lexer \<Rightarrow> Parser" where
  "Parser_new l =
     \<lparr>lexer = l, token = \<lparr>string_data = 0, string_size = 0, type = END_OF_FILE\<rparr>\<rparr>"

definition Parser_next_token :: "Parser \<Rightarrow> Parser" where
  "Parser_next_token P =
     (let (t, L) = next_token (lexer P) in P\<lparr>lexer := L, token := t\<rparr>)"

subsection \<open>Error location\<close>

text \<open>What leaves the parser other than a value: the \<open>ParserException\<close> with its text, or
  a read through a pointer that is outside the buffer of the source string (the buffer
  holds the \<open>size()\<close> characters and the terminator), which is undefined behaviour; the
  model stops there and reports the offset read.\<close>

datatype failure = ParserException string | InvalidRead int

definition rd :: "string \<Rightarrow> int \<Rightarrow> failure + char" where
  "rd s i =
     (if 0 \<le> i \<and> i < int (length s) then Inr (s ! nat i)
      else if i = int (length s) then Inr NUL
      else Inl (InvalidRead i))"

function find_start_of_line :: "string \<Rightarrow> int \<Rightarrow> failure + int" where
  "find_start_of_line s p =
     (case rd s p of
        Inl e \<Rightarrow> Inl e
      | Inr c \<Rightarrow> if c \<noteq> LF \<and> p > 0 then find_start_of_line s (p - 1) else Inr p)"
  by pat_completeness auto
termination
  by (relation "measure (\<lambda>(s, p). nat p)") auto

function find_end_of_line :: "string \<Rightarrow> int \<Rightarrow> failure + int" where
  "find_end_of_line s p =
     (case rd s p of
        Inl e \<Rightarrow> Inl e
      | Inr c \<Rightarrow> if c \<noteq> LF \<and> c \<noteq> NUL then find_end_of_line s (p + 1) else Inr p)"
  by pat_completeness auto
termination
  by (relation "measure (\<lambda>(s, p). nat (int (length s) - p))")
     (auto simp: rd_def split: if_splits)

text \<open>The copy loop \<open>while (source_line_len--) error_str += source_start[offset++]\<close>.\<close>

fun copy_line :: "string \<Rightarrow> int \<Rightarrow> nat \<Rightarrow> failure + string" where
  "copy_line s offset 0 = Inr []"
| "copy_line s offset (Suc n) =
     (case rd s offset of
        Inl e \<Rightarrow> Inl e
      | Inr c \<Rightarrow> (case copy_line s (offset + 1) n of
                    Inl e \<Rightarrow> Inl e
                  | Inr cs \<Rightarrow> Inr (c # cs)))"

text \<open>Pointer differences stored in a \<open>size_t\<close> wrap modulo \<open>2 ^ 64\<close>.\<close>

definition to_size_t :: "int \<Rightarrow> nat" where
  "to_size_t i = nat (i mod 2 ^ 64)"

definition show_error_location :: "Parser \<Rightarrow> failure + string" where
  "show_error_location P =
     (let s = source (lexer P);
          tok = int (string_data (token P))
      in case find_start_of_line s tok of
           Inl e \<Rightarrow> Inl e
         | Inr sol0 \<Rightarrow>
       (case rd s sol0 of
           Inl e \<Rightarrow> Inl e
         | Inr c0 \<Rightarrow>
       let start_of_line = (if c0 = NUL then sol0 + 1 else sol0)
       in (case find_end_of_line s start_of_line of
           Inl e \<Rightarrow> Inl e
         | Inr eol0 \<Rightarrow>
       (case rd s (eol0 - 1) of
           Inl e \<Rightarrow> Inl e
         | Inr c1 \<Rightarrow>
       let end_of_line = (if c1 = CR then eol0 - 1 else eol0);
           source_line_len = to_size_t (end_of_line - start_of_line);
           space_before_caret = to_size_t (tok - start_of_line)
       in (case copy_line s 0 source_line_len of
           Inl e \<Rightarrow> Inl e
         | Inr line \<Rightarrow>
             Inr (line @ [LF] @ replicate space_before_caret (CHR '' '') @ ''^''))))))"

definition report_error :: "Parser \<Rightarrow> string \<Rightarrow> failure" where
  "report_error P err =
     (case show_error_location P of
        Inl e \<Rightarrow> e
      | Inr loc \<Rightarrow> ParserException (err @ loc))"

text \<open>The four message texts of the source.\<close>

definition msg_unknown_operator :: string where
  "msg_unknown_operator = ''Unknown operator:'' @ [LF]"

definition msg_unmatched_paren :: string where
  "msg_unmatched_paren = ''Unmatched '' @ [CHR 0x27] @ ''('' @ [CHR 0x27] @ '':'' @ [LF]"

definition msg_unexpected_end :: string where
  "msg_unexpected_end = ''Unexpected end of expression: '' @ [LF]"

definition msg_unexpected_character :: string where
  "msg_unexpected_character = ''Unexpected character: '' @ [LF]"

subsection \<open>Evaluation\<close>

text \<open>The arithmetic of \<open>double\<close> and the library functions \<open>strtod\<close> and \<open>pow\<close> are the
  platform's, not the program's: the evaluator takes them as a parameter.\<close>

record 'v arith =
  d_strtod :: "string \<Rightarrow> 'v"
  d_add :: "'v \<Rightarrow> 'v \<Rightarrow> 'v"
  d_sub :: "'v \<Rightarrow> 'v \<Rightarrow> 'v"
  d_mul :: "'v \<Rightarrow> 'v \<Rightarrow> 'v"
  d_div :: "'v \<Rightarrow> 'v \<Rightarrow> 'v"
  d_pow :: "'v \<Rightarrow> 'v \<Rightarrow> 'v"

text \<open>The C string that starts at offset \<open>i\<close> of the buffer: \<open>strtod\<close> is handed
  \<open>token.string.data()\<close> and reads up to the terminator, not up to the view's length.\<close>

definition c_str_at :: "string \<Rightarrow> nat \<Rightarrow> string" where
  "c_str_at s i = takeWhile (\<lambda>c. c \<noteq> NUL) (drop i s)"

definition compute_op :: "'v arith \<Rightarrow> Parser \<Rightarrow> Token \<Rightarrow> 'v \<Rightarrow> 'v \<Rightarrow> failure + 'v" where
  "compute_op A P t lhs rhs =
     (case type t of
        ADD \<Rightarrow> Inr (d_add A lhs rhs)
      | SUBTRACT \<Rightarrow> Inr (d_sub A lhs rhs)
      | MULTIPLY \<Rightarrow> Inr (d_mul A lhs rhs)
      | DIVIDE \<Rightarrow> Inr (d_div A lhs rhs)
      | POWER \<Rightarrow> Inr (d_pow A lhs rhs)
      | _ \<Rightarrow> Inl (report_error P msg_unknown_operator))"

text \<open>\<open>compute_atom\<close> and \<open>compute_expr\<close> call each other, and \<open>compute_expr\<close> loops: the
  first argument bounds the depth of calls and loop rounds, and \<open>None\<close> is the answer of
  a run that needs more. \<open>compute_expr_loop\<close> is the \<open>while (true)\<close> of \<open>compute_expr\<close>
  with the running \<open>atom_lhs\<close>.\<close>

fun compute_atom :: "nat \<Rightarrow> 'v arith \<Rightarrow> Parser \<Rightarrow> (failure + 'v \<times> Parser) option"
and compute_expr :: "nat \<Rightarrow> 'v arith \<Rightarrow> int \<Rightarrow> Parser \<Rightarrow> (failure + 'v \<times> Parser) option"
and compute_expr_loop ::
      "nat \<Rightarrow> 'v arith \<Rightarrow> int \<Rightarrow> 'v \<Rightarrow> Parser \<Rightarrow> (failure + 'v \<times> Parser) option"
where
  "compute_atom 0 A P = None"
| "compute_atom (Suc n) A P =
     (let P1 = Parser_next_token P in
      if type (token P1) = LEFT_PAREN then
        (case compute_expr n A 1 P1 of
           None \<Rightarrow> None
         | Some (Inl e) \<Rightarrow> Some (Inl e)
         | Some (Inr (val, P2)) \<Rightarrow>
             if type (token P2) \<noteq> RIGHT_PAREN
             then Some (Inl (report_error P2 msg_unmatched_paren))
             else Some (Inr (val, Parser_next_token P2)))
      else if type (token P1) = END_OF_FILE
        then Some (Inl (report_error P1 msg_unexpected_end))
      else if type (token P1) \<noteq> NUMBER
        then Some (Inl (report_error P1 msg_unexpected_character))
      else Some (Inr (d_strtod A (c_str_at (source (lexer P1)) (string_data (token P1))),
                      Parser_next_token P1)))"
| "compute_expr 0 A minimum_precedence P = None"
| "compute_expr (Suc n) A minimum_precedence P =
     (case compute_atom n A P of
        None \<Rightarrow> None
      | Some (Inl e) \<Rightarrow> Some (Inl e)
      | Some (Inr (atom_lhs, P1)) \<Rightarrow> compute_expr_loop n A minimum_precedence atom_lhs P1)"
| "compute_expr_loop 0 A minimum_precedence atom_lhs P = None"
| "compute_expr_loop (Suc n) A minimum_precedence atom_lhs P =
     (let cur = token P in
      if (enum_value (type cur) > enum_value POWER \<or> enum_value (type cur) < enum_value ADD)
         \<or> prec (OperatorMap ! nat (enum_value (type cur))) < minimum_precedence
      then (if type cur = ILLEGAL_CHARACTER
            then Some (Inl (report_error P msg_unknown_operator))
            else Some (Inr (atom_lhs, P)))
      else
        (let op_prec = OperatorMap ! nat (enum_value (type cur));
             next_min_prec = (if assoc op_prec = LEFT then prec op_prec + 1 else prec op_prec)
         in case compute_expr n A next_min_prec P of
              None \<Rightarrow> None
            | Some (Inl e) \<Rightarrow> Some (Inl e)
            | Some (Inr (atom_rhs, P1)) \<Rightarrow>
                (case compute_op A P1 cur atom_lhs atom_rhs of
                   Inl e \<Rightarrow> Some (Inl e)
                 | Inr v \<Rightarrow> compute_expr_loop n A minimum_precedence v P1)))"

definition parse :: "nat \<Rightarrow> 'v arith \<Rightarrow> Parser \<Rightarrow> (failure + 'v \<times> Parser) option" where
  "parse n A P = compute_expr n A 1 P"

text \<open>One round of \<open>main\<close> on the line \<open>s\<close>: a fresh lexer and parser, then \<open>parse\<close>. The
  depth allowed, \<open>2 * length s + 2\<close>, always suffices (\<open>parse_not_None\<close> below), and more
  depth gives the same answer (\<open>fuel_mono\<close>).\<close>

definition eval_line :: "'v arith \<Rightarrow> string \<Rightarrow> (failure + 'v) option" where
  "eval_line A s =
     map_option (map_sum id fst) (parse (2 * length s + 2) A (Parser_new (Lexer_new s)))"

section \<open>Notions used to state the properties\<close>

text \<open>The lexer of the line \<open>s\<close> with its cursor at \<open>p\<close>; every lexer that \<open>main\<close> builds and
  runs has this form.\<close>

definition Lx :: "string \<Rightarrow> nat \<Rightarrow> Lexer" where
  "Lx s p = \<lparr>source = s, current_position = p, lexer_end = length s\<rparr>"

text \<open>A token given by the offset of its text, its length and its kind, and the parser on
  the line \<open>s\<close> with its cursor at \<open>p\<close> and the lookahead \<open>t\<close>.\<close>

definition tok :: "nat \<Rightarrow> nat \<Rightarrow> TokenType \<Rightarrow> Token" where
  "tok d n ty = \<lparr>string_data = d, string_size = n, type = ty\<rparr>"

definition PS :: "string \<Rightarrow> nat \<Rightarrow> Token \<Rightarrow> Parser" where
  "PS s p t = \<lparr>lexer = Lx s p, token = t\<rparr>"

text \<open>What \<open>next_token\<close> does, read off the text that remains: the kind of the token, the
  number of whitespace characters before it, its length and how far the cursor moves past
  the whitespace.\<close>

definition lex_suffix :: "string \<Rightarrow> TokenType \<times> nat \<times> nat \<times> nat" where
  "lex_suffix r0 =
     (let w = length (takeWhile is_space r0) in
      case dropWhile is_space r0 of
        [] \<Rightarrow> (END_OF_FILE, w, 1, 0)
      | c # r \<Rightarrow>
          if isdigit c then (NUMBER, w, Suc (length (takeWhile isdigit r)), Suc (length (takeWhile isdigit r)))
          else if c = CHR ''+'' then (ADD, w, 1, 1)
          else if c = CHR ''-'' then (SUBTRACT, w, 1, 1)
          else if c = CHR ''*'' then
            (case r of [] \<Rightarrow> (MULTIPLY, w, 1, 1)
             | d # r' \<Rightarrow> if d = CHR ''*'' then (POWER, w, 2, 2) else (MULTIPLY, w, 1, 1))
          else if c = CHR ''/'' then (DIVIDE, w, 1, 1)
          else if c = CHR ''('' then (LEFT_PAREN, w, 1, 1)
          else if c = CHR '')'' then (RIGHT_PAREN, w, 1, 1)
          else if c = NUL then (END_OF_FILE, w, 1, 1)
          else (ILLEGAL_CHARACTER, w, 1, 1))"

text \<open>The cursor of a parser's lexer, and the parsers \<open>parse\<close> passes through on the line
  \<open>s\<close>: the lexer is the line's, the cursor and the lookahead's text start within the
  buffer.\<close>

definition pos :: "Parser \<Rightarrow> nat" where
  "pos P = current_position (lexer P)"

definition wf_state :: "string \<Rightarrow> Parser \<Rightarrow> bool" where
  "wf_state s P \<longleftrightarrow> lexer P = Lx s (pos P) \<and> pos P \<le> length s \<and> string_data (token P) \<le> length s"

text \<open>The arithmetic that only records which operations were applied to which numbers,
  and the reading of such a record in an arithmetic \<open>A\<close>: the evaluator does nothing else
  with its values (\<open>eval_line_interp\<close> below).\<close>

datatype sym =
  SNum string | SAdd sym sym | SSub sym sym | SMul sym sym | SDiv sym sym | SPow sym sym

definition sym_arith :: "sym arith" where
  "sym_arith = \<lparr>d_strtod = SNum, d_add = SAdd, d_sub = SSub, d_mul = SMul, d_div = SDiv, d_pow = SPow\<rparr>"

fun interp :: "'v arith \<Rightarrow> sym \<Rightarrow> 'v" where
  "interp A (SNum s) = d_strtod A s"
| "interp A (SAdd x y) = d_add A (interp A x) (interp A y)"
| "interp A (SSub x y) = d_sub A (interp A x) (interp A y)"
| "interp A (SMul x y) = d_mul A (interp A x) (interp A y)"
| "interp A (SDiv x y) = d_div A (interp A x) (interp A y)"
| "interp A (SPow x y) = d_pow A (interp A x) (interp A y)"

text \<open>The outcome of a run in \<open>sym_arith\<close> read in the arithmetic \<open>A\<close>.\<close>

definition lift_result ::
  "'v arith \<Rightarrow> (failure + sym \<times> Parser) option \<Rightarrow> (failure + 'v \<times> Parser) option" where
  "lift_result A r = map_option (map_sum id (apfst (interp A))) r"

text \<open>The line as the error text shows it: the source up to its first terminator or line
  feed, without a carriage return at its end.\<close>

definition shown_line :: "string \<Rightarrow> string" where
  "shown_line s =
     (let l = takeWhile (\<lambda>c. c \<noteq> LF \<and> c \<noteq> NUL) s
      in if l \<noteq> [] \<and> last l = CR then butlast l else l)"

definition error_location_text :: "string \<Rightarrow> nat \<Rightarrow> string" where
  "error_location_text s d = shown_line s @ [LF] @ replicate d (CHR '' '') @ ''^''"

text \<open>The lines \<open>main\<close> can hand over and on which the error location is well defined:
  no line feed (\<open>getline\<close> strips it), a first byte that is not the terminator (so not
  the empty line), and a length that fits \<open>size_t\<close>.\<close>

definition plain_line :: "string \<Rightarrow> bool" where
  "plain_line s \<longleftrightarrow> LF \<notin> set s \<and> s \<noteq> [] \<and> hd s \<noteq> NUL \<and> length s < 2 ^ 64"





text \<open>The binary operators, with the token, the text, the table entry and the arithmetic
  of each.\<close>

datatype binop = OpAdd | OpSub | OpMul | OpDiv | OpPow

fun op_token :: "binop \<Rightarrow> TokenType" where
  "op_token OpAdd = ADD"
| "op_token OpSub = SUBTRACT"
| "op_token OpMul = MULTIPLY"
| "op_token OpDiv = DIVIDE"
| "op_token OpPow = POWER"

fun op_text :: "binop \<Rightarrow> string" where
  "op_text OpAdd = ''+''"
| "op_text OpSub = ''-''"
| "op_text OpMul = ''*''"
| "op_text OpDiv = ''/''"
| "op_text OpPow = ''**''"

fun apply_op :: "'v arith \<Rightarrow> binop \<Rightarrow> 'v \<Rightarrow> 'v \<Rightarrow> 'v" where
  "apply_op A OpAdd x y = d_add A x y"
| "apply_op A OpSub x y = d_sub A x y"
| "apply_op A OpMul x y = d_mul A x y"
| "apply_op A OpDiv x y = d_div A x y"
| "apply_op A OpPow x y = d_pow A x y"

definition op_entry :: "binop \<Rightarrow> OperatorPrecedence" where
  "op_entry b = OperatorMap ! nat (enum_value (op_token b))"

text \<open>The least precedence level the table allows for the left and for the right operand of
  an operator without parentheses: a left-associative operator takes its own level on the
  left and only higher ones on the right, a right-associative one the other way round.\<close>

definition left_min :: "binop \<Rightarrow> int" where
  "left_min b = (if assoc (op_entry b) = LEFT then prec (op_entry b) else prec (op_entry b) + 1)"

definition right_min :: "binop \<Rightarrow> int" where
  "right_min b = (if assoc (op_entry b) = LEFT then prec (op_entry b) + 1 else prec (op_entry b))"

text \<open>Expressions as trees, with the whitespace written before each token: a number
  (whitespace, digits), a parenthesised expression (whitespace before each parenthesis), a
  binary operation (whitespace before the operator).\<close>

datatype expr =
  Num string string
  | Paren string expr string
  | Bin expr string binop expr

fun render :: "expr \<Rightarrow> string" where
  "render (Num w ds) = w @ ds"
| "render (Paren w1 e w2) = w1 @ ''('' @ render e @ w2 @ '')''"
| "render (Bin l w b r) = render l @ w @ op_text b @ render r"

text \<open>The level of a tree: that of its top operator, and 4, above every operator, for a
  number or a parenthesised expression.\<close>

fun level :: "expr \<Rightarrow> int" where
  "level (Num w ds) = 4"
| "level (Paren w1 e w2) = 4"
| "level (Bin l w b r) = prec (op_entry b)"

text \<open>A valid expression is a tree grouped as the table dictates: its text needs no further
  parentheses to be read back as this tree.\<close>

fun valid :: "expr \<Rightarrow> bool" where
  "valid (Num w ds) = (list_all is_space w \<and> ds \<noteq> [] \<and> list_all isdigit ds)"
| "valid (Paren w1 e w2) = (list_all is_space w1 \<and> valid e \<and> list_all is_space w2)"
| "valid (Bin l w b r) =
     (valid l \<and> list_all is_space w \<and> valid r
      \<and> left_min b \<le> level l \<and> right_min b \<le> level r)"

text \<open>The value of a tree in the arithmetic \<open>A\<close>, when \<open>rest\<close> follows its text in the
  buffer: a number is what \<open>strtod\<close> makes of the C string that starts at its digits.\<close>

fun val :: "'v arith \<Rightarrow> expr \<Rightarrow> string \<Rightarrow> 'v" where
  "val A (Num w ds) rest = d_strtod A (takeWhile (\<lambda>c. c \<noteq> NUL) (ds @ rest))"
| "val A (Paren w1 e w2) rest = val A e (w2 @ '')'' @ rest)"
| "val A (Bin l w b r) rest =
     apply_op A b (val A l (w @ op_text b @ render r @ rest)) (val A r rest)"

text \<open>The kind of the first token of a text.\<close>

definition first_token :: "string \<Rightarrow> TokenType" where
  "first_token r = fst (lex_suffix r)"

definition starts_with_digit :: "string \<Rightarrow> bool" where
  "starts_with_digit r = (case r of [] \<Rightarrow> False | c # _ \<Rightarrow> isdigit c)"

text \<open>The parser state after \<open>next_token\<close> from the cursor \<open>q\<close>.\<close>

definition look :: "string \<Rightarrow> nat \<Rightarrow> Parser" where
  "look s q = (case lex_suffix (drop q s) of (ty, w, sz, adv) \<Rightarrow> PS s (q + w + adv) (tok (q + w) sz ty))"

text \<open>The test of the loop of \<open>compute_expr\<close>: the token is a binary operator whose
  precedence is at least the minimum.\<close>

definition continues :: "int \<Rightarrow> TokenType \<Rightarrow> bool" where
  "continues m ty \<longleftrightarrow>
     \<not> ((enum_value ty > enum_value POWER \<or> enum_value ty < enum_value ADD)
        \<or> prec (OperatorMap ! nat (enum_value ty)) < m)"

text \<open>The minimum precedence at which the parser reads the rightmost operand of a tree;
  an operator below it after the tree is not taken into the tree.\<close>

fun binds :: "expr \<Rightarrow> int" where
  "binds (Num w ds) = 4"
| "binds (Paren w1 e w2) = 4"
| "binds (Bin l w b r) = right_min b"

text \<open>The tokens on which the loop of \<open>compute_expr\<close> returns at every minimum precedence.\<close>

definition ends_expression :: "TokenType \<Rightarrow> bool" where
  "ends_expression ty \<longleftrightarrow>
     ty = NUMBER \<or> ty = LEFT_PAREN \<or> ty = RIGHT_PAREN \<or> ty = END_OF_FILE"

text \<open>The integer a run of decimal digits denotes, and the characters that end a number
  in an expression.\<close>

definition digit_value :: "char \<Rightarrow> int" where
  "digit_value c = of_char c - 48"

definition decimal :: "string \<Rightarrow> int" where
  "decimal ds = foldl (\<lambda>n c. 10 * n + digit_value c) 0 ds"

definition delimiter :: "char \<Rightarrow> bool" where
  "delimiter c \<longleftrightarrow> is_space c \<or> c \<in> set ''+-*/()''"

text \<open>What the examples of the specification assume of the platform: \<open>emb\<close> is the
  \<open>double\<close> of an integer, \<open>pinf\<close> is positive infinity, and on integers of magnitude up to
  \<open>2 ^ 53\<close> the conversion and the operations are exact, as IEEE 754 binary64 and a
  correctly rounding library make them. Zero results are restricted to the cases where
  the result is the positive zero.\<close>

definition exact_arith :: "'v arith \<Rightarrow> (int \<Rightarrow> 'v) \<Rightarrow> 'v \<Rightarrow> bool" where
  "exact_arith A emb pinf \<longleftrightarrow>
     (\<forall>ds r. ds \<noteq> [] \<and> list_all isdigit ds \<and> decimal ds \<le> 2 ^ 53
         \<and> (r = [] \<or> delimiter (hd r)) \<longrightarrow> d_strtod A (ds @ r) = emb (decimal ds))
   \<and> (\<forall>a b. \<bar>a\<bar> \<le> 2 ^ 53 \<and> \<bar>b\<bar> \<le> 2 ^ 53 \<and> \<bar>a + b\<bar> \<le> 2 ^ 53 \<longrightarrow>
         d_add A (emb a) (emb b) = emb (a + b))
   \<and> (\<forall>a b. \<bar>a\<bar> \<le> 2 ^ 53 \<and> \<bar>b\<bar> \<le> 2 ^ 53 \<and> \<bar>a - b\<bar> \<le> 2 ^ 53 \<longrightarrow>
         d_sub A (emb a) (emb b) = emb (a - b))
   \<and> (\<forall>a b. \<bar>a\<bar> \<le> 2 ^ 53 \<and> \<bar>b\<bar> \<le> 2 ^ 53 \<and> \<bar>a * b\<bar> \<le> 2 ^ 53
         \<and> (a * b \<noteq> 0 \<or> (0 \<le> a \<and> 0 \<le> b)) \<longrightarrow>
         d_mul A (emb a) (emb b) = emb (a * b))
   \<and> (\<forall>a b. \<bar>a\<bar> \<le> 2 ^ 53 \<and> \<bar>b\<bar> \<le> 2 ^ 53 \<and> b \<noteq> 0 \<and> b dvd a
         \<and> (a \<noteq> 0 \<or> 0 < b) \<longrightarrow>
         d_div A (emb a) (emb b) = emb (a div b))
   \<and> (\<forall>a. 0 < a \<and> a \<le> 2 ^ 53 \<longrightarrow> d_div A (emb a) (emb 0) = pinf)
   \<and> (\<forall>a b. \<bar>a\<bar> \<le> 2 ^ 53 \<and> 0 \<le> b \<and> b \<le> 2 ^ 53 \<and> \<bar>a ^ nat b\<bar> \<le> 2 ^ 53 \<longrightarrow>
         d_pow A (emb a) (emb b) = emb (a ^ nat b))
   \<and> (\<forall>a b. \<bar>a\<bar> \<le> 2 ^ 53 \<and> \<bar>b\<bar> \<le> 2 ^ 53 \<and> emb a = emb b \<longrightarrow> a = b)"

text \<open>An arithmetic that meets these assumptions: the integers with two infinities and a
  value for every other result.\<close>

datatype xint = Fin int | PosInf | NegInf | Other

fun x_add :: "xint \<Rightarrow> xint \<Rightarrow> xint" where
  "x_add (Fin a) (Fin b) = Fin (a + b)"
| "x_add x y = Other"

fun x_sub :: "xint \<Rightarrow> xint \<Rightarrow> xint" where
  "x_sub (Fin a) (Fin b) = Fin (a - b)"
| "x_sub x y = Other"

fun x_mul :: "xint \<Rightarrow> xint \<Rightarrow> xint" where
  "x_mul (Fin a) (Fin b) = Fin (a * b)"
| "x_mul x y = Other"

fun x_div :: "xint \<Rightarrow> xint \<Rightarrow> xint" where
  "x_div (Fin a) (Fin b) =
     (if b = 0 then (if 0 < a then PosInf else if a < 0 then NegInf else Other)
      else if b dvd a then Fin (a div b) else Other)"
| "x_div x y = Other"

fun x_pow :: "xint \<Rightarrow> xint \<Rightarrow> xint" where
  "x_pow (Fin a) (Fin b) = (if 0 \<le> b then Fin (a ^ nat b) else Other)"
| "x_pow x y = Other"

definition int_arith :: "xint arith" where
  "int_arith =
     \<lparr>d_strtod = (\<lambda>s. Fin (decimal (takeWhile isdigit s))),
      d_add = x_add, d_sub = x_sub, d_mul = x_mul, d_div = x_div, d_pow = x_pow\<rparr>"

section \<open>Properties\<close>

declare skip_whitespace.simps [simp del] number_loop.simps [simp del]
declare find_start_of_line.simps [simp del] find_end_of_line.simps [simp del]

lemma drop_eq_Cons: "drop p s = c # r \<Longrightarrow> p < length s \<and> s ! p = c \<and> drop (Suc p) s = r"
proof -
  assume a: "drop p s = c # r"
  then have "p < length s" by (cases "p < length s") auto
  moreover from a this have "s ! p = c" by (metis nth_via_drop)
  moreover from a have "drop (Suc p) s = r" by (metis drop_Suc list.sel(3) tl_drop)
  ultimately show ?thesis by simp
qed

lemma peek_Lx: "peek (Lx s p) = (case drop p s of [] \<Rightarrow> NUL | c # r \<Rightarrow> c)"
proof (cases "drop p s")
  case Nil
  then show ?thesis by (simp add: peek_def Lx_def is_at_end_def)
next
  case (Cons c r)
  from drop_eq_Cons[OF this] show ?thesis using Cons
    by (simp add: peek_def Lx_def is_at_end_def char_at_def)
qed

lemma peek_next_Lx:
  "peek_next (Lx s p) = (case drop p s of [] \<Rightarrow> NUL | c # r \<Rightarrow> (case r of [] \<Rightarrow> NUL | d # r' \<Rightarrow> d))"
proof (cases "drop p s")
  case Nil
  then show ?thesis by (simp add: peek_next_def Lx_def is_at_end_def)
next
  case (Cons c r)
  note a = drop_eq_Cons[OF this]
  show ?thesis
  proof (cases r)
    case Nil
    with a have "length s \<le> Suc p" by simp
    then show ?thesis using Cons Nil a
      by (simp add: peek_next_def Lx_def is_at_end_def char_at_def)
  next
    case (Cons d r')
    with a have "drop (Suc p) s = d # r'" by simp
    from drop_eq_Cons[OF this] show ?thesis using \<open>drop p s = c # r\<close> Cons a
      by (simp add: peek_next_def Lx_def is_at_end_def char_at_def)
  qed
qed

lemma read_next_Lx:
  "snd (read_next (Lx s p)) = (case drop p s of [] \<Rightarrow> Lx s p | c # r \<Rightarrow> Lx s (Suc p))"
proof (cases "drop p s")
  case Nil
  then show ?thesis by (simp add: read_next_def Lx_def is_at_end_def)
next
  case (Cons c r)
  from drop_eq_Cons[OF this] show ?thesis using Cons
    by (simp add: read_next_def Lx_def is_at_end_def)
qed

lemma skip_whitespace_Lx:
  "drop p s = w @ r \<Longrightarrow> \<forall>c\<in>set w. is_space c \<Longrightarrow> (case r of [] \<Rightarrow> True | c # r' \<Rightarrow> \<not> is_space c)
   \<Longrightarrow> skip_whitespace (Lx s p) = Lx s (p + length w)"
proof (induction w arbitrary: p)
  case Nil
  then show ?case by (subst skip_whitespace.simps) (auto simp: peek_Lx is_space_def split: list.splits)
next
  case (Cons a w)
  from Cons.prems(1) have d: "drop (Suc p) s = w @ r" by (auto dest: drop_eq_Cons)
  have "skip_whitespace (Lx s (Suc p)) = Lx s (Suc p + length w)"
    using Cons.IH[OF d] Cons.prems by simp
  then show ?case using Cons.prems
    by (subst skip_whitespace.simps) (simp add: peek_Lx read_next_Lx)
qed

lemma number_loop_Lx:
  "drop p s = ds @ r \<Longrightarrow> \<forall>c\<in>set ds. isdigit c \<Longrightarrow> (case r of [] \<Rightarrow> True | c # r' \<Rightarrow> \<not> isdigit c)
   \<Longrightarrow> number_loop (Lx s p) = Lx s (p + length ds)"
proof (induction ds arbitrary: p)
  case Nil
  then show ?case by (subst number_loop.simps) (auto simp: peek_Lx isdigit_def split: list.splits)
next
  case (Cons a w)
  from Cons.prems(1) have d: "drop (Suc p) s = w @ r" by (auto dest: drop_eq_Cons)
  have "number_loop (Lx s (Suc p)) = Lx s (Suc p + length w)"
    using Cons.IH[OF d] Cons.prems by simp
  then show ?case using Cons.prems
    by (subst number_loop.simps) (simp add: peek_Lx read_next_Lx)
qed

lemma skip_whitespace_takeWhile:
  "skip_whitespace (Lx s p) = Lx s (p + length (takeWhile is_space (drop p s)))"
proof -
  have a: "drop p s = takeWhile is_space (drop p s) @ dropWhile is_space (drop p s)" by simp
  have b: "\<forall>c\<in>set (takeWhile is_space (drop p s)). is_space c" by (auto dest: set_takeWhileD)
  have c: "(case dropWhile is_space (drop p s) of [] \<Rightarrow> True | c # r' \<Rightarrow> \<not> is_space c)"
    by (metis (mono_tags, lifting) hd_dropWhile list.case_eq_if list.sel(1))
  from skip_whitespace_Lx[OF a b c] show ?thesis .
qed

lemma number_loop_takeWhile:
  "number_loop (Lx s p) = Lx s (p + length (takeWhile isdigit (drop p s)))"
proof -
  have a: "drop p s = takeWhile isdigit (drop p s) @ dropWhile isdigit (drop p s)" by simp
  have b: "\<forall>c\<in>set (takeWhile isdigit (drop p s)). isdigit c" by (auto dest: set_takeWhileD)
  have c: "(case dropWhile isdigit (drop p s) of [] \<Rightarrow> True | c # r' \<Rightarrow> \<not> isdigit c)"
    by (metis (mono_tags, lifting) hd_dropWhile list.case_eq_if list.sel(1))
  from number_loop_Lx[OF a b c] show ?thesis .
qed

lemma current_position_Lx [simp]: "current_position (Lx s p) = p"
  by (simp add: Lx_def)

lemma source_Lx [simp]: "source (Lx s p) = s"
  by (simp add: Lx_def)

lemma isdigit_not_special:
  "isdigit c \<Longrightarrow> c \<noteq> NUL \<and> \<not> is_space c"
  by (auto simp: isdigit_def is_space_def)

lemma next_token_Lx:
  "next_token (Lx s p) =
     (case lex_suffix (drop p s) of (ty, w, sz, adv) \<Rightarrow> (tok (p + w) sz ty, Lx s (p + w + adv)))"
proof -
  define w where "w = length (takeWhile is_space (drop p s))"
  define q where "q = p + w"
  have sk: "skip_whitespace (Lx s p) = Lx s q"
    by (simp add: skip_whitespace_takeWhile q_def w_def)
  have dq: "dropWhile is_space (drop p s) = drop q s"
    unfolding q_def w_def by (metis add.commute drop_drop dropWhile_eq_drop)
  have ls: "lex_suffix (drop p s) =
      (case drop q s of
        [] \<Rightarrow> (END_OF_FILE, w, 1, 0)
      | c # r \<Rightarrow>
          if isdigit c then (NUMBER, w, Suc (length (takeWhile isdigit r)), Suc (length (takeWhile isdigit r)))
          else if c = CHR ''+'' then (ADD, w, 1, 1)
          else if c = CHR ''-'' then (SUBTRACT, w, 1, 1)
          else if c = CHR ''*'' then
            (case r of [] \<Rightarrow> (MULTIPLY, w, 1, 1)
             | d # r' \<Rightarrow> if d = CHR ''*'' then (POWER, w, 2, 2) else (MULTIPLY, w, 1, 1))
          else if c = CHR ''/'' then (DIVIDE, w, 1, 1)
          else if c = CHR ''('' then (LEFT_PAREN, w, 1, 1)
          else if c = CHR '')'' then (RIGHT_PAREN, w, 1, 1)
          else if c = NUL then (END_OF_FILE, w, 1, 1)
          else (ILLEGAL_CHARACTER, w, 1, 1))"
    by (simp add: lex_suffix_def dq Let_def flip: w_def)
  have nt: "next_token (Lx s p) =
     (let c = peek (Lx s q)
      in if isdigit c then number (Lx s q)
         else if c = CHR ''+'' then (tok q 1 ADD, snd (read_next (Lx s q)))
         else if c = CHR ''-'' then (tok q 1 SUBTRACT, snd (read_next (Lx s q)))
         else if c = CHR ''*'' then
           (if peek_next (Lx s q) = CHR ''*''
            then (tok q 2 POWER, snd (read_next (snd (read_next (Lx s q)))))
            else (tok q 1 MULTIPLY, snd (read_next (Lx s q))))
         else if c = CHR ''/'' then (tok q 1 DIVIDE, snd (read_next (Lx s q)))
         else if c = CHR ''('' then (tok q 1 LEFT_PAREN, snd (read_next (Lx s q)))
         else if c = CHR '')'' then (tok q 1 RIGHT_PAREN, snd (read_next (Lx s q)))
         else ((if c = NUL then tok q 1 END_OF_FILE else tok q 1 ILLEGAL_CHARACTER),
               snd (read_next (Lx s q))))"
    by (simp add: next_token_def sk make_simple_token_def tok_def Let_def)
  show ?thesis
  proof (cases "drop q s")
    case Nil
    then show ?thesis
      by (simp add: nt ls peek_Lx read_next_Lx isdigit_def q_def)
  next
    case (Cons c r)
    note dS = drop_eq_Cons[OF Cons]
    show ?thesis
    proof (cases "isdigit c")
      case True
      have "number (Lx s q) = (tok q (Suc (length (takeWhile isdigit r))) NUMBER,
                               Lx s (q + Suc (length (takeWhile isdigit r))))"
        using Cons dS by (simp add: number_def read_next_Lx number_loop_takeWhile tok_def)
      then show ?thesis using True Cons
        by (simp add: nt ls peek_Lx q_def)
    next
      case False
      show ?thesis
      proof (cases r)
        case Nil
        then show ?thesis using False Cons dS
          by (simp add: nt ls peek_Lx peek_next_Lx read_next_Lx q_def)
      next
        case (Cons d r')
        then show ?thesis using False \<open>drop q s = c # r\<close> dS
          by (simp add: nt ls peek_Lx peek_next_Lx read_next_Lx q_def)
      qed
    qed
  qed
qed

lemma Parser_next_token_PS:
  "Parser_next_token (PS s p t) =
     (case lex_suffix (drop p s) of (ty, w, sz, adv) \<Rightarrow> PS s (p + w + adv) (tok (p + w) sz ty))"
  by (simp add: Parser_next_token_def PS_def next_token_Lx split: prod.splits)

lemma lex_suffix_Nil:
  "dropWhile is_space r0 = [] \<Longrightarrow>
   lex_suffix r0 = (END_OF_FILE, length (takeWhile is_space r0), 1, 0)"
  unfolding lex_suffix_def Let_def by (simp only: list.case)

lemma lex_suffix_Cons:
  "dropWhile is_space r0 = c # r \<Longrightarrow>
   lex_suffix r0 =
     (let w = length (takeWhile is_space r0) in
          if isdigit c then (NUMBER, w, Suc (length (takeWhile isdigit r)), Suc (length (takeWhile isdigit r)))
          else if c = CHR ''+'' then (ADD, w, 1, 1)
          else if c = CHR ''-'' then (SUBTRACT, w, 1, 1)
          else if c = CHR ''*'' then
            (case r of [] \<Rightarrow> (MULTIPLY, w, 1, 1)
             | d # r' \<Rightarrow> if d = CHR ''*'' then (POWER, w, 2, 2) else (MULTIPLY, w, 1, 1))
          else if c = CHR ''/'' then (DIVIDE, w, 1, 1)
          else if c = CHR ''('' then (LEFT_PAREN, w, 1, 1)
          else if c = CHR '')'' then (RIGHT_PAREN, w, 1, 1)
          else if c = NUL then (END_OF_FILE, w, 1, 1)
          else (ILLEGAL_CHARACTER, w, 1, 1))"
  unfolding lex_suffix_def Let_def by (simp only: list.case)

lemma lex_suffix_bounds:
  assumes "lex_suffix r0 = (ty, w, sz, adv)"
  shows "w + adv \<le> length r0" and "ty \<noteq> END_OF_FILE \<Longrightarrow> 1 \<le> adv"
    and "w = length (takeWhile is_space r0)"
proof -
  have l: "length r0 = length (takeWhile is_space r0) + length (dropWhile is_space r0)"
    by (metis length_append takeWhile_dropWhile_id)
  have all: "w + adv \<le> length r0 \<and> (ty \<noteq> END_OF_FILE \<longrightarrow> 1 \<le> adv) \<and> w = length (takeWhile is_space r0)"
  proof (cases "dropWhile is_space r0")
    case Nil
    from lex_suffix_Nil[OF Nil] assms l show ?thesis by simp
  next
    case (Cons c r)
    have t: "length (takeWhile isdigit r) \<le> length r" by (rule length_takeWhile_le)
    show ?thesis
    proof (cases r)
      case Nil
      then show ?thesis using assms l Cons lex_suffix_Cons[OF Cons]
        by (auto simp: Let_def split: if_splits)
    next
      case (Cons d r')
      then show ?thesis using assms l t \<open>dropWhile is_space r0 = c # r\<close>
          lex_suffix_Cons[OF \<open>dropWhile is_space r0 = c # r\<close>]
        by (auto simp: Let_def split: if_splits)
    qed
  qed
  from all show "w + adv \<le> length r0" by simp
  from all show "ty \<noteq> END_OF_FILE \<Longrightarrow> 1 \<le> adv" by simp
  from all show "w = length (takeWhile is_space r0)" by simp
qed

declare compute_atom.simps [simp del] compute_expr.simps [simp del] compute_expr_loop.simps [simp del]

lemmas compute_0 = compute_atom.simps(1) compute_expr.simps(1) compute_expr_loop.simps(1)
lemmas atom_Suc = compute_atom.simps(2)
lemmas expr_Suc = compute_expr.simps(2)
lemmas loop_Suc = compute_expr_loop.simps(2)

lemma wf_state_PS: "wf_state s P \<Longrightarrow> P = PS s (pos P) (token P)"
  by (simp add: wf_state_def PS_def)

lemma next_token_wf:
  assumes "wf_state s P"
  shows "wf_state s (Parser_next_token P)"
    and "pos P \<le> pos (Parser_next_token P)"
    and "type (token (Parser_next_token P)) \<noteq> END_OF_FILE \<Longrightarrow> pos P < pos (Parser_next_token P)"
proof -
  obtain ty w sz adv where ls: "lex_suffix (drop (pos P) s) = (ty, w, sz, adv)"
    by (metis prod_cases4)
  have P: "P = PS s (pos P) (token P)" using assms by (rule wf_state_PS)
  have n: "Parser_next_token P = PS s (pos P + w + adv) (tok (pos P + w) sz ty)"
    by (subst P) (simp add: Parser_next_token_PS ls)
  from lex_suffix_bounds[OF ls] assms have b: "pos P + w + adv \<le> length s" "ty \<noteq> END_OF_FILE \<Longrightarrow> 1 \<le> adv"
    by (auto simp: wf_state_def)
  show "wf_state s (Parser_next_token P)" using b
    by (simp add: n wf_state_def PS_def pos_def tok_def)
  show "pos P \<le> pos (Parser_next_token P)"
    by (simp add: n PS_def pos_def)
  show "type (token (Parser_next_token P)) \<noteq> END_OF_FILE \<Longrightarrow> pos P < pos (Parser_next_token P)"
    using b by (simp add: n PS_def pos_def tok_def)
qed

lemma compute_progress:
  "(\<forall>P v P'. wf_state s P \<longrightarrow> compute_atom n A P = Some (Inr (v, P')) \<longrightarrow>
        wf_state s P' \<and> pos P < pos P')
 \<and> (\<forall>m P v P'. wf_state s P \<longrightarrow> compute_expr n A m P = Some (Inr (v, P')) \<longrightarrow>
        wf_state s P' \<and> pos P < pos P')
 \<and> (\<forall>m lhs P v P'. wf_state s P \<longrightarrow> compute_expr_loop n A m lhs P = Some (Inr (v, P')) \<longrightarrow>
        wf_state s P' \<and> pos P \<le> pos P')"
proof (induction n)
  case 0
  show ?case by (simp add: compute_0)
next
  case (Suc n)
  then have IHa: "\<And>P v P'. wf_state s P \<Longrightarrow> compute_atom n A P = Some (Inr (v, P')) \<Longrightarrow>
        wf_state s P' \<and> pos P < pos P'"
    and IHe: "\<And>m P v P'. wf_state s P \<Longrightarrow> compute_expr n A m P = Some (Inr (v, P')) \<Longrightarrow>
        wf_state s P' \<and> pos P < pos P'"
    and IHl: "\<And>m lhs P v P'. wf_state s P \<Longrightarrow> compute_expr_loop n A m lhs P = Some (Inr (v, P')) \<Longrightarrow>
        wf_state s P' \<and> pos P \<le> pos P'"
    by blast+
  have atom: "wf_state s P' \<and> pos P < pos P'"
    if wf: "wf_state s P" and c: "compute_atom (Suc n) A P = Some (Inr (v, P'))" for P v P'
  proof -
    define P1 where "P1 = Parser_next_token P"
    note nt = next_token_wf[OF wf, folded P1_def]
    show ?thesis
    proof (cases "type (token P1) = LEFT_PAREN")
      case True
      with c obtain val P2 where e: "compute_expr n A 1 P1 = Some (Inr (val, P2))"
        and r: "type (token P2) = RIGHT_PAREN" and P': "P' = Parser_next_token P2"
        by (auto simp: atom_Suc P1_def[symmetric] Let_def split: option.splits sum.splits if_splits)
      from IHe[OF nt(1) e] have w2: "wf_state s P2" and l: "pos P1 < pos P2" by simp_all
      from next_token_wf[OF w2] P' nt(2) l show ?thesis by simp
    next
      case False
      with c have ty: "type (token P1) = NUMBER" and P': "P' = Parser_next_token P1"
        by (auto simp: atom_Suc P1_def[symmetric] Let_def split: if_splits)
      from ty nt(3) have "pos P < pos P1" by simp
      with next_token_wf[OF nt(1)] P' show ?thesis by simp
    qed
  qed
  have expr: "wf_state s P' \<and> pos P < pos P'"
    if wf: "wf_state s P" and c: "compute_expr (Suc n) A m P = Some (Inr (v, P'))" for m P v P'
  proof -
    from c obtain a P1 where a: "compute_atom n A P = Some (Inr (a, P1))"
      and l: "compute_expr_loop n A m a P1 = Some (Inr (v, P'))"
      by (auto simp: expr_Suc split: option.splits sum.splits)
    from IHa[OF wf a] have w1: "wf_state s P1" and lt: "pos P < pos P1" by simp_all
    from IHl[OF w1 l] lt show ?thesis by simp
  qed
  have loop: "wf_state s P' \<and> pos P \<le> pos P'"
    if wf: "wf_state s P" and c: "compute_expr_loop (Suc n) A m lhs P = Some (Inr (v, P'))"
    for m lhs P v P'
  proof (cases "(enum_value (type (token P)) > enum_value POWER \<or> enum_value (type (token P)) < enum_value ADD)
         \<or> prec (OperatorMap ! nat (enum_value (type (token P)))) < m")
    case True
    with c have "P' = P" by (auto simp: loop_Suc Let_def split: if_splits)
    with wf show ?thesis by simp
  next
    case False
    with c obtain nm rhs P1 v1 where e: "compute_expr n A nm P = Some (Inr (rhs, P1))"
      and l: "compute_expr_loop n A m v1 P1 = Some (Inr (v, P'))"
      by (auto simp: loop_Suc Let_def split: option.splits sum.splits)
    from IHe[OF wf e] have w1: "wf_state s P1" and lt: "pos P < pos P1" by simp_all
    from IHl[OF w1 l] lt show ?thesis by simp
  qed
  from atom expr loop show ?case by blast
qed

lemma fuel_Suc:
  "(\<forall>P r. compute_atom n A P = Some r \<longrightarrow> compute_atom (Suc n) A P = Some r)
 \<and> (\<forall>m P r. compute_expr n A m P = Some r \<longrightarrow> compute_expr (Suc n) A m P = Some r)
 \<and> (\<forall>m lhs P r. compute_expr_loop n A m lhs P = Some r \<longrightarrow>
        compute_expr_loop (Suc n) A m lhs P = Some r)"
proof (induction n)
  case 0
  show ?case by (simp add: compute_0)
next
  case (Suc n)
  then have IHa: "\<And>P r. compute_atom n A P = Some r \<Longrightarrow> compute_atom (Suc n) A P = Some r"
    and IHe: "\<And>m P r. compute_expr n A m P = Some r \<Longrightarrow> compute_expr (Suc n) A m P = Some r"
    and IHl: "\<And>m lhs P r. compute_expr_loop n A m lhs P = Some r \<Longrightarrow>
        compute_expr_loop (Suc n) A m lhs P = Some r"
    by blast+
  have atom: "compute_atom (Suc (Suc n)) A P = Some r"
    if c: "compute_atom (Suc n) A P = Some r" for P r
  proof (cases "type (token (Parser_next_token P)) = LEFT_PAREN")
    case True
    with c obtain x where e: "compute_expr n A 1 (Parser_next_token P) = Some x"
      by (auto simp: atom_Suc Let_def split: option.splits)
    from IHe[OF e] have e': "compute_expr (Suc n) A 1 (Parser_next_token P) = Some x" .
    from c show ?thesis
      unfolding atom_Suc[of "Suc n"] atom_Suc[of n] Let_def e e' .
  next
    case False
    with c show ?thesis
      unfolding atom_Suc[of "Suc n"] atom_Suc[of n] Let_def by simp
  qed
  have expr: "compute_expr (Suc (Suc n)) A m P = Some r"
    if c: "compute_expr (Suc n) A m P = Some r" for m P r
  proof -
    from c obtain x where a: "compute_atom n A P = Some x"
      by (auto simp: expr_Suc split: option.splits)
    note a' = IHa[OF a]
    show ?thesis
    proof (cases x)
      case (Inl e)
      from c a Inl have "r = x" by (simp add: expr_Suc)
      then show ?thesis by (simp add: expr_Suc a' Inl)
    next
      case (Inr y)
      obtain v P1 where y: "y = (v, P1)" by (cases y)
      from c a Inr y have "compute_expr_loop n A m v P1 = Some r" by (simp add: expr_Suc)
      from IHl[OF this] a' Inr y show ?thesis by (simp add: expr_Suc)
    qed
  qed
  have loop: "compute_expr_loop (Suc (Suc n)) A m lhs P = Some r"
    if c: "compute_expr_loop (Suc n) A m lhs P = Some r" for m lhs P r
  proof (cases "(enum_value (type (token P)) > enum_value POWER \<or> enum_value (type (token P)) < enum_value ADD)
         \<or> prec (OperatorMap ! nat (enum_value (type (token P)))) < m")
    case True
    with c show ?thesis by (simp add: loop_Suc Let_def)
  next
    case False
    define nm where "nm = (if assoc (OperatorMap ! nat (enum_value (type (token P)))) = LEFT
        then prec (OperatorMap ! nat (enum_value (type (token P)))) + 1
        else prec (OperatorMap ! nat (enum_value (type (token P)))))"
    from c False obtain x where e: "compute_expr n A nm P = Some x"
      by (auto simp: loop_Suc Let_def nm_def split: option.splits)
    note e' = IHe[OF e]
    show ?thesis
    proof (cases x)
      case (Inl err)
      from c e False Inl have "r = x" by (simp add: loop_Suc Let_def nm_def)
      then show ?thesis using False by (simp add: loop_Suc Let_def nm_def[symmetric] e' Inl)
    next
      case (Inr y)
      obtain rhs P1 where y: "y = (rhs, P1)" by (cases y)
      show ?thesis
      proof (cases "compute_op A P1 (token P) lhs rhs")
        case (Inl err)
        from c e False Inl \<open>x = Inr y\<close> y have "r = Inl err" by (simp add: loop_Suc Let_def nm_def)
        then show ?thesis using False
          by (simp add: loop_Suc Let_def nm_def[symmetric] e' Inl \<open>x = Inr y\<close> y)
      next
        case (Inr v)
        with c e False \<open>x = Inr y\<close> y have "compute_expr_loop n A m v P1 = Some r"
          by (simp add: loop_Suc Let_def nm_def)
        from IHl[OF this] False show ?thesis
          by (simp add: loop_Suc[of "Suc n"] Let_def nm_def[symmetric] e' Inr \<open>x = Inr y\<close> y)
      qed
    qed
  qed
  from atom expr loop show ?case by blast
qed

lemma fuel_add:
  "compute_atom n A P = Some r \<Longrightarrow> compute_atom (n + k) A P = Some r"
  "compute_expr n A m P = Some r' \<Longrightarrow> compute_expr (n + k) A m P = Some r'"
  "compute_expr_loop n A m lhs P = Some r'' \<Longrightarrow> compute_expr_loop (n + k) A m lhs P = Some r''"
proof (induction k)
  case 0
  { case 1 then show ?case by simp }
  { case 2 then show ?case by simp }
  { case 3 then show ?case by simp }
next
  case (Suc k)
  { case 1 from Suc(1)[OF this] show ?case using fuel_Suc[of "n + k" A] by simp }
  { case 2 from Suc(2)[OF this] show ?case using fuel_Suc[of "n + k" A] by simp }
  { case 3 from Suc(3)[OF this] show ?case using fuel_Suc[of "n + k" A] by simp }
qed

lemma fuel_mono:
  assumes "n \<le> n'"
  shows "compute_atom n A P = Some r \<Longrightarrow> compute_atom n' A P = Some r"
    and "compute_expr n A m P = Some r \<Longrightarrow> compute_expr n' A m P = Some r"
    and "compute_expr_loop n A m lhs P = Some r \<Longrightarrow> compute_expr_loop n' A m lhs P = Some r"
  using assms fuel_add[where n = n and A = A and k = "n' - n"] by simp_all

lemma compute_terminates:
  "(\<forall>P. wf_state s P \<longrightarrow> 2 * (length s - pos P) + 1 \<le> n \<longrightarrow> compute_atom n A P \<noteq> None)
 \<and> (\<forall>m P. wf_state s P \<longrightarrow> 2 * (length s - pos P) + 2 \<le> n \<longrightarrow> compute_expr n A m P \<noteq> None)
 \<and> (\<forall>m lhs P. wf_state s P \<longrightarrow> 2 * (length s - pos P) + 3 \<le> n \<longrightarrow>
        compute_expr_loop n A m lhs P \<noteq> None)"
proof (induction n)
  case 0
  show ?case by simp
next
  case (Suc n)
  then have IHa: "\<And>P. wf_state s P \<Longrightarrow> 2 * (length s - pos P) + 1 \<le> n \<Longrightarrow> compute_atom n A P \<noteq> None"
    and IHe: "\<And>m P. wf_state s P \<Longrightarrow> 2 * (length s - pos P) + 2 \<le> n \<Longrightarrow> compute_expr n A m P \<noteq> None"
    and IHl: "\<And>m lhs P. wf_state s P \<Longrightarrow> 2 * (length s - pos P) + 3 \<le> n \<Longrightarrow>
        compute_expr_loop n A m lhs P \<noteq> None"
    by blast+
  have atom: "compute_atom (Suc n) A P \<noteq> None"
    if wf: "wf_state s P" and b: "2 * (length s - pos P) + 1 \<le> Suc n" for P
  proof (cases "type (token (Parser_next_token P)) = LEFT_PAREN")
    case True
    note nt = next_token_wf[OF wf]
    from True nt(3) have lt: "pos P < pos (Parser_next_token P)" by simp
    from nt(1) have "pos (Parser_next_token P) \<le> length s" by (simp add: wf_state_def)
    with lt b have "2 * (length s - pos (Parser_next_token P)) + 2 \<le> n" by arith
    from IHe[OF nt(1) this] obtain x where "compute_expr n A 1 (Parser_next_token P) = Some x"
      by blast
    then show ?thesis using True
      by (cases x) (auto simp: atom_Suc Let_def)
  next
    case False
    then show ?thesis by (simp add: atom_Suc Let_def)
  qed
  have expr: "compute_expr (Suc n) A m P \<noteq> None"
    if wf: "wf_state s P" and b: "2 * (length s - pos P) + 2 \<le> Suc n" for m P
  proof -
    from b have "2 * (length s - pos P) + 1 \<le> n" by simp
    from IHa[OF wf this] obtain x where a: "compute_atom n A P = Some x" by blast
    show ?thesis
    proof (cases x)
      case (Inl e)
      with a show ?thesis by (simp add: expr_Suc)
    next
      case (Inr y)
      obtain v P1 where y: "y = (v, P1)" by (cases y)
      from compute_progress[of s n A] wf a Inr y have w1: "wf_state s P1" and lt: "pos P < pos P1"
        by blast+
      from w1 have "pos P1 \<le> length s" by (simp add: wf_state_def)
      with lt b have "2 * (length s - pos P1) + 3 \<le> n" by arith
      from IHl[OF w1 this] a Inr y show ?thesis by (simp add: expr_Suc)
    qed
  qed
  have loop: "compute_expr_loop (Suc n) A m lhs P \<noteq> None"
    if wf: "wf_state s P" and b: "2 * (length s - pos P) + 3 \<le> Suc n" for m lhs P
  proof (cases "(enum_value (type (token P)) > enum_value POWER \<or> enum_value (type (token P)) < enum_value ADD)
         \<or> prec (OperatorMap ! nat (enum_value (type (token P)))) < m")
    case True
    then show ?thesis by (simp add: loop_Suc Let_def)
  next
    case False
    define nm where "nm = (if assoc (OperatorMap ! nat (enum_value (type (token P)))) = LEFT
        then prec (OperatorMap ! nat (enum_value (type (token P)))) + 1
        else prec (OperatorMap ! nat (enum_value (type (token P)))))"
    from b have "2 * (length s - pos P) + 2 \<le> n" by simp
    from IHe[OF wf this] obtain x where e: "compute_expr n A nm P = Some x" by blast
    show ?thesis
    proof (cases x)
      case (Inl err)
      with e False show ?thesis by (simp add: loop_Suc Let_def nm_def[symmetric])
    next
      case (Inr y)
      obtain rhs P1 where y: "y = (rhs, P1)" by (cases y)
      from compute_progress[of s n A] wf e Inr y have w1: "wf_state s P1" and lt: "pos P < pos P1"
        by blast+
      from w1 have "pos P1 \<le> length s" by (simp add: wf_state_def)
      with lt b have "2 * (length s - pos P1) + 3 \<le> n" by arith
      from IHl[OF w1 this] have l: "compute_expr_loop n A m v P1 \<noteq> None" for v .
      show ?thesis
      proof (cases "compute_op A P1 (token P) lhs rhs")
        case (Inl err)
        then show ?thesis using False by (simp add: loop_Suc Let_def nm_def[symmetric] e Inr y)
      next
        case (Inr v)
        then show ?thesis using False l[of v]
          by (simp add: loop_Suc Let_def nm_def[symmetric] e \<open>x = Inr y\<close> y)
      qed
    qed
  qed
  from atom expr loop show ?case by blast
qed

lemma wf_state_new: "wf_state s (Parser_new (Lexer_new s))"
  by (simp add: wf_state_def Parser_new_def Lexer_new_def Lx_def pos_def)

lemma pos_new: "pos (Parser_new (Lexer_new s)) = 0"
  by (simp add: Parser_new_def Lexer_new_def pos_def)

lemma parse_not_None: "parse (2 * length s + 2) A (Parser_new (Lexer_new s)) \<noteq> None"
  using compute_terminates[of s "2 * length s + 2" A] wf_state_new[of s]
  by (simp add: parse_def pos_new)

lemma eval_line_Some:
  assumes "compute_expr n A 1 (Parser_new (Lexer_new s)) = Some r"
  shows "eval_line A s = Some (map_sum id fst r)"
proof -
  obtain r' where r': "compute_expr (2 * length s + 2) A 1 (Parser_new (Lexer_new s)) = Some r'"
    using parse_not_None[of s A] by (auto simp: parse_def)
  have "r' = r"
  proof (cases "n \<le> 2 * length s + 2")
    case True
    from fuel_mono(2)[OF True assms] r' show ?thesis by simp
  next
    case False
    then have "2 * length s + 2 \<le> n" by simp
    from fuel_mono(2)[OF this r'] assms show ?thesis by simp
  qed
  then show ?thesis using r' by (simp add: eval_line_def parse_def)
qed

lemma lift_result_simps [simp]:
  "lift_result A None = None"
  "lift_result A (Some (Inl e)) = Some (Inl e)"
  "lift_result A (Some (Inr (v, P))) = Some (Inr (interp A v, P))"
  by (simp_all add: lift_result_def)

lemma compute_op_interp:
  "compute_op A P t (interp A lhs) (interp A rhs) =
     map_sum id (interp A) (compute_op sym_arith P t lhs rhs)"
  by (cases "type t") (simp_all add: compute_op_def sym_arith_def)

lemma compute_interp:
  "(\<forall>P. compute_atom n A P = lift_result A (compute_atom n sym_arith P))
 \<and> (\<forall>m P. compute_expr n A m P = lift_result A (compute_expr n sym_arith m P))
 \<and> (\<forall>m lhs P. compute_expr_loop n A m (interp A lhs) P =
        lift_result A (compute_expr_loop n sym_arith m lhs P))"
proof (induction n)
  case 0
  show ?case by (simp add: compute_0)
next
  case (Suc n)
  then have IHa: "\<And>P. compute_atom n A P = lift_result A (compute_atom n sym_arith P)"
    and IHe: "\<And>m P. compute_expr n A m P = lift_result A (compute_expr n sym_arith m P)"
    and IHl: "\<And>m lhs P. compute_expr_loop n A m (interp A lhs) P =
        lift_result A (compute_expr_loop n sym_arith m lhs P)"
    by blast+
  have atom: "compute_atom (Suc n) A P = lift_result A (compute_atom (Suc n) sym_arith P)" for P
  proof (cases "type (token (Parser_next_token P)) = LEFT_PAREN")
    case True
    show ?thesis
    proof (cases "compute_expr n sym_arith 1 (Parser_next_token P)")
      case None
      then show ?thesis using True by (simp add: atom_Suc Let_def IHe)
    next
      case (Some x)
      show ?thesis
      proof (cases x)
        case (Inl e)
        then show ?thesis using True Some by (simp add: atom_Suc Let_def IHe)
      next
        case (Inr y)
        obtain v P2 where y: "y = (v, P2)" by (cases y)
        then show ?thesis using True Some Inr by (simp add: atom_Suc Let_def IHe)
      qed
    qed
  next
    case False
    then show ?thesis by (simp add: atom_Suc Let_def sym_arith_def)
  qed
  have expr: "compute_expr (Suc n) A m P = lift_result A (compute_expr (Suc n) sym_arith m P)" for m P
  proof (cases "compute_atom n sym_arith P")
    case None
    then show ?thesis by (simp add: expr_Suc IHa)
  next
    case (Some x)
    show ?thesis
    proof (cases x)
      case (Inl e)
      then show ?thesis using Some by (simp add: expr_Suc IHa)
    next
      case (Inr y)
      obtain v P2 where y: "y = (v, P2)" by (cases y)
      then show ?thesis using Some Inr by (simp add: expr_Suc IHa IHl)
    qed
  qed
  have loop: "compute_expr_loop (Suc n) A m (interp A lhs) P =
        lift_result A (compute_expr_loop (Suc n) sym_arith m lhs P)" for m lhs P
  proof (cases "(enum_value (type (token P)) > enum_value POWER \<or> enum_value (type (token P)) < enum_value ADD)
         \<or> prec (OperatorMap ! nat (enum_value (type (token P)))) < m")
    case True
    then show ?thesis by (simp add: loop_Suc Let_def)
  next
    case False
    define nm where "nm = (if assoc (OperatorMap ! nat (enum_value (type (token P)))) = LEFT
        then prec (OperatorMap ! nat (enum_value (type (token P)))) + 1
        else prec (OperatorMap ! nat (enum_value (type (token P)))))"
    show ?thesis
    proof (cases "compute_expr n sym_arith nm P")
      case None
      then show ?thesis using False by (simp add: loop_Suc Let_def nm_def[symmetric] IHe)
    next
      case (Some x)
      show ?thesis
      proof (cases x)
        case (Inl e)
        then show ?thesis using Some False by (simp add: loop_Suc Let_def nm_def[symmetric] IHe)
      next
        case (Inr y)
        obtain rhs P1 where y: "y = (rhs, P1)" by (cases y)
        show ?thesis
        proof (cases "compute_op sym_arith P1 (token P) lhs rhs")
          case (Inl e)
          then show ?thesis using Some False \<open>x = Inr y\<close> y
            by (simp add: loop_Suc Let_def nm_def[symmetric] IHe compute_op_interp)
        next
          case (Inr v)
          then show ?thesis using Some False \<open>x = Inr y\<close> y
            by (simp add: loop_Suc Let_def nm_def[symmetric] IHe compute_op_interp IHl)
        qed
      qed
    qed
  qed
  from atom expr loop show ?case by blast
qed

lemma eval_line_interp:
  "eval_line A s = map_option (map_sum id (interp A)) (eval_line sym_arith s)"
proof -
  have "compute_expr n A 1 P = lift_result A (compute_expr n sym_arith 1 P)" for n P
    using compute_interp[of n A] by blast
  then show ?thesis
    by (simp add: eval_line_def parse_def lift_result_def option.map_comp sum.map_comp comp_def
        map_sum.comp)
qed

lemma rd_in: "i < length s \<Longrightarrow> rd s (int i) = Inr (s ! i)"
  by (simp add: rd_def)

lemma rd_end: "rd s (int (length s)) = Inr NUL"
  by (simp add: rd_def)

lemma find_start_of_line_no_LF:
  "LF \<notin> set s \<Longrightarrow> d \<le> length s \<Longrightarrow> find_start_of_line s (int d) = Inr 0"
proof (induction d)
  case 0
  then show ?case
    by (subst find_start_of_line.simps) (cases "0 < length s"; simp add: rd_def)
next
  case (Suc d)
  have c: "\<exists>c. rd s (int (Suc d)) = Inr c \<and> c \<noteq> LF"
  proof (cases "Suc d < length s")
    case True
    then have "s ! Suc d \<in> set s" by simp
    with Suc.prems(1) have "s ! Suc d \<noteq> LF" by metis
    with True rd_in[OF True] show ?thesis by simp
  next
    case False
    with Suc.prems have "Suc d = length s" by simp
    then show ?thesis using rd_end[of s] by simp
  qed
  then obtain c where c: "rd s (int (Suc d)) = Inr c" "c \<noteq> LF" by blast
  have e: "int (Suc d) - 1 = int d" by simp
  from Suc have "find_start_of_line s (int d) = Inr 0" by simp
  with c show ?case
    by (subst find_start_of_line.simps) (simp only: e sum.case, simp)
qed

lemma find_end_of_line_run:
  "drop p s = w @ r \<Longrightarrow> p \<le> length s \<Longrightarrow> \<forall>c\<in>set w. c \<noteq> LF \<and> c \<noteq> NUL \<Longrightarrow>
   (case r of [] \<Rightarrow> True | c # r' \<Rightarrow> c = LF \<or> c = NUL) \<Longrightarrow>
   find_end_of_line s (int p) = Inr (int (p + length w))"
proof (induction w arbitrary: p)
  case Nil
  show ?case
  proof (cases r)
    case Nil
    with \<open>drop p s = [] @ r\<close> \<open>p \<le> length s\<close> have "p = length s" by simp
    then show ?thesis by (subst find_end_of_line.simps) (simp add: rd_def)
  next
    case (Cons c r')
    with Nil.prems have d: "drop p s = c # r'" and c: "c = LF \<or> c = NUL" by simp_all
    from drop_eq_Cons[OF d] have "rd s (int p) = Inr c" by (simp add: rd_in)
    with c show ?thesis
      by (subst find_end_of_line.simps) auto
  qed
next
  case (Cons a w)
  from Cons.prems(1) have d: "drop p s = a # (w @ r)" by simp
  note dS = drop_eq_Cons[OF d]
  from dS have d': "drop (Suc p) s = w @ r" and l: "Suc p \<le> length s" by simp_all
  have i: "find_end_of_line s (int (Suc p)) = Inr (int (Suc p + length w))"
    using Cons.IH[OF d' l] Cons.prems by simp
  have e: "int p + 1 = int (Suc p)" by simp
  from dS have r: "rd s (int p) = Inr a" by (simp add: rd_in)
  from Cons.prems(3) have a: "a \<noteq> LF \<and> a \<noteq> NUL" by simp
  show ?case
    by (subst find_end_of_line.simps) (simp only: r sum.case a e i, simp)
qed

lemma copy_line_take:
  "off + n \<le> length s \<Longrightarrow> copy_line s (int off) n = Inr (take n (drop off s))"
proof (induction n arbitrary: off)
  case 0
  show ?case by simp
next
  case (Suc n)
  then have l: "off < length s" and b: "Suc off + n \<le> length s" by simp_all
  have e: "int off + 1 = int (Suc off)" by simp
  from l have d: "drop off s = s ! off # drop (Suc off) s" by (simp add: Cons_nth_drop_Suc)
  show ?case
    by (simp only: copy_line.simps rd_in[OF l] sum.case e Suc.IH[OF b])
       (subst d, simp)
qed

lemma to_size_t_small: "k < 2 ^ 64 \<Longrightarrow> to_size_t (int k) = k"
proof -
  assume "k < 2 ^ 64"
  then have "int k < 2 ^ 64" by (metis of_nat_less_iff of_nat_numeral of_nat_power)
  then have "int k mod 2 ^ 64 = int k" by simp
  then show ?thesis by (simp only: to_size_t_def nat_int)
qed

lemma show_error_location_unfold:
  assumes "find_start_of_line (source (lexer P)) (int (string_data (token P))) = Inr 0"
    and "rd (source (lexer P)) 0 = Inr c0" and "c0 \<noteq> NUL"
    and "find_end_of_line (source (lexer P)) 0 = Inr (int e)"
    and "rd (source (lexer P)) (int e - 1) = Inr c1"
    and "(if c1 = CR then int e - 1 else int e) = int n"
    and "to_size_t (int n) = n"
    and "to_size_t (int (string_data (token P))) = string_data (token P)"
    and "copy_line (source (lexer P)) 0 n = Inr line"
  shows "show_error_location P =
           Inr (line @ [LF] @ replicate (string_data (token P)) (CHR '' '') @ ''^'')"
  unfolding show_error_location_def Let_def
  by (simp only: assms sum.case if_False diff_zero)

lemma show_error_location_plain:
  assumes pl: "plain_line s" and sP: "source (lexer P) = s" and d: "string_data (token P) \<le> length s"
  shows "show_error_location P = Inr (error_location_text s (string_data (token P)))"
proof -
  define l where "l = takeWhile (\<lambda>c. c \<noteq> LF \<and> c \<noteq> NUL) s"
  define e where "e = length l"
  from pl have nl: "LF \<notin> set s" and ne: "s \<noteq> []" and h: "hd s \<noteq> NUL" and sz: "length s < 2 ^ 64"
    by (simp_all add: plain_line_def)
  from ne h have s0: "rd s 0 = Inr (hd s)" by (cases s) (simp_all add: rd_def)
  have fs: "find_start_of_line s (int (string_data (token P))) = Inr 0"
    using find_start_of_line_no_LF[OF nl d] .
  have dr: "drop 0 s = l @ dropWhile (\<lambda>c. c \<noteq> LF \<and> c \<noteq> NUL) s" by (simp add: l_def)
  have la: "\<forall>c\<in>set l. c \<noteq> LF \<and> c \<noteq> NUL" by (auto simp: l_def dest: set_takeWhileD)
  have st: "(case dropWhile (\<lambda>c. c \<noteq> LF \<and> c \<noteq> NUL) s of [] \<Rightarrow> True | c # r' \<Rightarrow> c = LF \<or> c = NUL)"
  proof (cases "dropWhile (\<lambda>c. c \<noteq> LF \<and> c \<noteq> NUL) s")
    case Nil
    then show ?thesis by (simp only: list.case)
  next
    case (Cons c r')
    from hd_dropWhile[of "\<lambda>c. c \<noteq> LF \<and> c \<noteq> NUL" s] Cons
    have "\<not> (c \<noteq> LF \<and> c \<noteq> NUL)" by simp
    then show ?thesis by (simp only: Cons list.case) simp
  qed
  have fe: "find_end_of_line s 0 = Inr (int e)"
    using find_end_of_line_run[OF dr _ la st] by (simp add: e_def)
  from ne h nl have lne: "l \<noteq> []" by (cases s) (auto simp: l_def)
  then have e0: "0 < e" by (simp add: e_def)
  have el: "e \<le> length s" by (simp add: e_def l_def length_takeWhile_le)
  have tl: "take e s = l" unfolding e_def l_def by (rule takeWhile_eq_take[symmetric])
  from e0 el have e1: "e - 1 < length s" by simp
  have "l ! (e - 1) = s ! (e - 1)" using e0 tl by (metis diff_less nth_take zero_less_one)
  moreover have "last l = l ! (e - 1)" using lne by (simp add: last_conv_nth e_def)
  ultimately have le: "s ! (e - 1) = last l" by simp
  have ie: "int e - 1 = int (e - 1)" using e0 by simp
  have r1: "rd s (int e - 1) = Inr (last l)" using rd_in[OF e1] le by (simp only: ie)
  define n where "n = (if last l = CR then e - 1 else e)"
  have n: "(if last l = CR then int e - 1 else int e) = int n" by (simp add: n_def ie)
  have nle: "n \<le> length s" using el by (auto simp: n_def)
  have tn: "take n s = shown_line s"
  proof (cases "last l = CR")
    case True
    have "take (e - 1) s = butlast l" using tl el by (metis butlast_take)
    then show ?thesis using True lne by (simp add: n_def shown_line_def l_def[symmetric])
  next
    case False
    then show ?thesis using tl by (simp add: n_def shown_line_def l_def[symmetric])
  qed
  have cl: "copy_line s 0 n = Inr (shown_line s)"
    using copy_line_take[of 0 n s] nle tn by simp
  have z1: "to_size_t (int n) = n" using nle sz by (intro to_size_t_small) simp
  have z2: "to_size_t (int (string_data (token P))) = string_data (token P)"
    using d sz by (intro to_size_t_small) simp
  have "show_error_location P =
      Inr (shown_line s @ [LF] @ replicate (string_data (token P)) (CHR '' '') @ ''^'')"
  proof (rule show_error_location_unfold[of P "hd s" e "last l" n])
    show "find_start_of_line (source (lexer P)) (int (string_data (token P))) = Inr 0"
      unfolding sP by (rule fs)
    show "rd (source (lexer P)) 0 = Inr (hd s)" unfolding sP by (rule s0)
    show "hd s \<noteq> NUL" by (rule h)
    show "find_end_of_line (source (lexer P)) 0 = Inr (int e)" unfolding sP by (rule fe)
    show "rd (source (lexer P)) (int e - 1) = Inr (last l)" unfolding sP by (rule r1)
    show "(if last l = CR then int e - 1 else int e) = int n" by (rule n)
    show "to_size_t (int n) = n" by (rule z1)
    show "to_size_t (int (string_data (token P))) = string_data (token P)" by (rule z2)
    show "copy_line (source (lexer P)) 0 n = Inr (shown_line s)" unfolding sP by (rule cl)
  qed
  then show ?thesis by (simp only: error_location_text_def)
qed

lemma report_error_plain:
  assumes "plain_line s" "wf_state s P"
  shows "report_error P msg = ParserException (msg @ error_location_text s (string_data (token P)))"
proof -
  from assms(2) have "lexer P = Lx s (pos P)" by (simp add: wf_state_def)
  then have a: "source (lexer P) = s" by simp
  from assms(2) have b: "string_data (token P) \<le> length s" by (simp add: wf_state_def)
  from show_error_location_plain[OF assms(1) a b] show ?thesis
    by (simp add: report_error_def)
qed







lemma Parser_next_token_look: "Parser_next_token (PS s q t) = look s q"
  by (simp add: look_def Parser_next_token_PS)

lemma spaces_split:
  assumes "list_all is_space w" "y \<noteq> []" "\<not> is_space (hd y)"
  shows "takeWhile is_space (w @ y) = w" and "dropWhile is_space (w @ y) = y"
proof -
  from assms(1) have a: "\<And>x. x \<in> set w \<Longrightarrow> is_space x" by (simp add: list_all_iff)
  from assms(2,3) have t: "takeWhile is_space y = []" and d: "dropWhile is_space y = y"
    by (cases y; simp)+
  show "takeWhile is_space (w @ y) = w" using a t by (simp add: takeWhile_append2)
  show "dropWhile is_space (w @ y) = y" using a d by (simp add: dropWhile_append2)
qed

lemma lex_suffix_spaces:
  assumes "list_all is_space w" "\<not> is_space c"
  shows "lex_suffix (w @ c # r) =
          (if isdigit c then (NUMBER, length w, Suc (length (takeWhile isdigit r)), Suc (length (takeWhile isdigit r)))
          else if c = CHR ''+'' then (ADD, length w, 1, 1)
          else if c = CHR ''-'' then (SUBTRACT, length w, 1, 1)
          else if c = CHR ''*'' then
            (case r of [] \<Rightarrow> (MULTIPLY, length w, 1, 1)
             | d # r' \<Rightarrow> if d = CHR ''*'' then (POWER, length w, 2, 2) else (MULTIPLY, length w, 1, 1))
          else if c = CHR ''/'' then (DIVIDE, length w, 1, 1)
          else if c = CHR ''('' then (LEFT_PAREN, length w, 1, 1)
          else if c = CHR '')'' then (RIGHT_PAREN, length w, 1, 1)
          else if c = NUL then (END_OF_FILE, length w, 1, 1)
          else (ILLEGAL_CHARACTER, length w, 1, 1))"
proof -
  have sp: "takeWhile is_space (w @ c # r) = w" "dropWhile is_space (w @ c # r) = c # r"
    using spaces_split[OF assms(1), of "c # r"] assms(2) by simp_all
  show ?thesis
    unfolding lex_suffix_Cons[OF sp(2)] Let_def sp(1) ..
qed

lemma lex_suffix_number:
  assumes "list_all is_space w" "ds \<noteq> []" "list_all isdigit ds" "\<not> starts_with_digit rest"
  shows "lex_suffix (w @ ds @ rest) = (NUMBER, length w, length ds, length ds)"
proof -
  obtain c ds' where ds: "ds = c # ds'" using assms(2) by (cases ds) auto
  with assms(3) have c: "isdigit c" and ds': "\<And>x. x \<in> set ds' \<Longrightarrow> isdigit x"
    by (simp_all add: list_all_iff)
  from c have ns: "\<not> is_space c" by (simp add: isdigit_not_special)
  from assms(4) have "takeWhile isdigit rest = []" by (cases rest) (simp_all add: starts_with_digit_def)
  with ds' have t: "takeWhile isdigit (ds' @ rest) = ds'" by (simp add: takeWhile_append2)
  show ?thesis
    using lex_suffix_spaces[OF assms(1) ns, of "ds' @ rest"] by (simp add: c t ds)
qed

lemma lex_suffix_paren:
  assumes "list_all is_space w"
  shows "lex_suffix (w @ ''('' @ x) = (LEFT_PAREN, length w, 1, 1)"
    and "lex_suffix (w @ '')'' @ x) = (RIGHT_PAREN, length w, 1, 1)"
  using lex_suffix_spaces[OF assms, of "CHR ''(''" x] lex_suffix_spaces[OF assms, of "CHR '')''" x]
  by (simp_all add: is_space_def isdigit_def)

lemma lex_suffix_op:
  assumes "list_all is_space w" "x = [] \<or> hd x \<noteq> CHR ''*''"
  shows "lex_suffix (w @ op_text b @ x) = (op_token b, length w, length (op_text b), length (op_text b))"
proof (cases b)
  case OpAdd
  then show ?thesis using lex_suffix_spaces[OF assms(1), of "CHR ''+''" x]
    by (simp add: is_space_def isdigit_def)
next
  case OpSub
  then show ?thesis using lex_suffix_spaces[OF assms(1), of "CHR ''-''" x]
    by (simp add: is_space_def isdigit_def)
next
  case OpMul
  then show ?thesis using lex_suffix_spaces[OF assms(1), of "CHR ''*''" x] assms(2)
    by (cases x) (simp_all add: is_space_def isdigit_def)
next
  case OpDiv
  then show ?thesis using lex_suffix_spaces[OF assms(1), of "CHR ''/''" x]
    by (simp add: is_space_def isdigit_def)
next
  case OpPow
  then show ?thesis using lex_suffix_spaces[OF assms(1), of "CHR ''*''" "CHR ''*'' # x"]
    by (simp add: is_space_def isdigit_def)
qed

lemma op_entry_simps:
  "op_entry OpAdd = \<lparr>prec = 1, assoc = LEFT\<rparr>"
  "op_entry OpSub = \<lparr>prec = 1, assoc = LEFT\<rparr>"
  "op_entry OpMul = \<lparr>prec = 2, assoc = LEFT\<rparr>"
  "op_entry OpDiv = \<lparr>prec = 2, assoc = LEFT\<rparr>"
  "op_entry OpPow = \<lparr>prec = 3, assoc = RIGHT\<rparr>"
  by (simp_all add: op_entry_def OperatorMap_def)

lemma continues_op: "continues m (op_token b) \<longleftrightarrow> m \<le> prec (op_entry b)"
  by (cases b) (auto simp: continues_def op_entry_def)

lemma not_continues_4: "\<not> continues 4 ty"
  by (cases ty) (simp_all add: continues_def OperatorMap_def)

lemma not_continues_mono: "\<not> continues k ty \<Longrightarrow> k \<le> k' \<Longrightarrow> \<not> continues k' ty"
  by (auto simp: continues_def)

lemma level_ge_1: "1 \<le> level e"
proof (cases e)
  case (Bin l w b r)
  then show ?thesis by (cases b) (simp_all add: op_entry_simps)
qed simp_all

lemma level_le_binds: "level e \<le> binds e"
proof (cases e)
  case (Bin l w b r)
  then show ?thesis by (cases b) (simp_all add: op_entry_simps right_min_def)
qed simp_all

lemma left_operand_stops:
  assumes "left_min b \<le> level l"
  shows "\<not> continues (binds l) (op_token b)"
proof (cases l)
  case (Bin l' w' b' r')
  with assms have "prec (op_entry b) < right_min b'"
    by (cases b; cases b') (simp_all add: op_entry_simps left_min_def right_min_def)
  then show ?thesis by (simp add: Bin continues_op)
qed (simp_all add: not_continues_4)

lemma render_head:
  "valid e \<Longrightarrow> render e @ x \<noteq> [] \<and> hd (render e @ x) \<noteq> CHR ''*''"
proof (induction e arbitrary: x)
  case (Num w ds)
  then show ?case
    by (cases w; cases ds) (auto simp: is_space_def isdigit_def)
next
  case (Paren w1 e w2)
  then show ?case by (cases w1) (auto simp: is_space_def)
next
  case (Bin l w b r)
  from Bin.IH(1)[of "w @ op_text b @ render r @ x"] Bin.prems show ?case by simp
qed

lemma drop_shift: "drop p s = a @ b \<Longrightarrow> drop (p + length a) s = b"
  by (metis add.commute append_eq_conv_conj drop_drop)

lemma type_tok [simp]: "type (tok d n ty) = ty" "string_data (tok d n ty) = d"
  by (simp_all add: tok_def)

lemma PS_sel [simp]: "token (PS s p t) = t" "lexer (PS s p t) = Lx s p"
  by (simp_all add: PS_def)

lemma look_type: "type (token (look s q)) = first_token (drop q s)"
  by (simp add: look_def first_token_def split: prod.splits)

lemma loop_stop:
  "\<not> continues m (type (token P)) \<Longrightarrow> type (token P) \<noteq> ILLEGAL_CHARACTER \<Longrightarrow>
   compute_expr_loop (Suc n) A m lhs P = Some (Inr (lhs, P))"
  by (simp add: loop_Suc Let_def continues_def)

lemma compute_op_binop: "type t = op_token b \<Longrightarrow> compute_op A P t lhs rhs = Inr (apply_op A b lhs rhs)"
  by (cases b) (simp_all add: compute_op_def)

lemma loop_step:
  assumes "type (token P) = op_token b" "m \<le> prec (op_entry b)"
    and "compute_expr n A (right_min b) P = Some (Inr (rhs, P1))"
  shows "compute_expr_loop (Suc n) A m lhs P = compute_expr_loop n A m (apply_op A b lhs rhs) P1"
proof -
  from assms(1,2) have c: "continues m (type (token P))" by (simp add: continues_op)
  have e: "OperatorMap ! nat (enum_value (type (token P))) = op_entry b"
    by (simp add: op_entry_def assms(1))
  from c show ?thesis
    unfolding continues_def
    by (simp add: loop_Suc Let_def e right_min_def[symmetric] assms(3)
        compute_op_binop[OF assms(1)])
qed

lemma look_number:
  assumes "drop q s = w @ ds @ rest" "list_all is_space w" "ds \<noteq> []" "list_all isdigit ds"
    "\<not> starts_with_digit rest"
  shows "look s q = PS s (q + length w + length ds) (tok (q + length w) (length ds) NUMBER)"
  by (simp add: look_def assms(1) lex_suffix_number[OF assms(2-5)])

lemma look_lparen:
  assumes "drop q s = w @ ''('' @ x" "list_all is_space w"
  shows "look s q = PS s (q + length w + 1) (tok (q + length w) 1 LEFT_PAREN)"
  using lex_suffix_paren(1)[OF assms(2), of x] by (simp add: look_def assms(1))

lemma look_rparen:
  assumes "drop q s = w @ '')'' @ x" "list_all is_space w"
  shows "look s q = PS s (q + length w + 1) (tok (q + length w) 1 RIGHT_PAREN)"
  using lex_suffix_paren(2)[OF assms(2), of x] by (simp add: look_def assms(1))

lemma look_op:
  assumes "drop q s = w @ op_text b @ x" "list_all is_space w" "x = [] \<or> hd x \<noteq> CHR ''*''"
  shows "look s q = PS s (q + length w + length (op_text b))
                      (tok (q + length w) (length (op_text b)) (op_token b))"
  by (simp add: look_def assms(1) lex_suffix_op[OF assms(2,3)])

lemma atom_number:
  assumes "drop p s = w @ ds @ rest" "list_all is_space w" "ds \<noteq> []" "list_all isdigit ds"
    "\<not> starts_with_digit rest"
  shows "compute_atom (Suc k) A (PS s p t) =
     Some (Inr (d_strtod A (takeWhile (\<lambda>c. c \<noteq> NUL) (ds @ rest)), look s (p + length w + length ds)))"
proof -
  have d: "drop (p + length w) s = ds @ rest" using drop_shift[OF assms(1)] .
  show ?thesis
    by (simp add: atom_Suc Parser_next_token_look look_number[OF assms] Let_def c_str_at_def d)
qed

lemma atom_paren:
  assumes "drop p s = w1 @ ''('' @ x" "list_all is_space w1"
    and "compute_expr k A 1 (PS s (p + length w1 + 1) (tok (p + length w1) 1 LEFT_PAREN)) =
           Some (Inr (v, look s q))"
    and "drop q s = w2 @ '')'' @ y" "list_all is_space w2"
  shows "compute_atom (Suc k) A (PS s p t) = Some (Inr (v, look s (q + length w2 + 1)))"
proof -
  have l: "look s q = PS s (q + length w2 + 1) (tok (q + length w2) 1 RIGHT_PAREN)"
    using look_rparen[OF assms(4,5)] .
  have e: "compute_expr k A 1 (look s p) = Some (Inr (v, look s q))"
    using assms(3) by (simp add: look_lparen[OF assms(1,2)])
  have ty: "type (token (look s p)) = LEFT_PAREN" by (simp add: look_lparen[OF assms(1,2)])
  have ty2: "type (token (look s q)) = RIGHT_PAREN" by (simp add: l)
  have n: "Parser_next_token (look s q) = look s (q + length w2 + 1)"
    by (subst l) (simp add: Parser_next_token_look)
  show ?thesis
    by (simp add: atom_Suc Parser_next_token_look Let_def ty e ty2 n)
qed

text \<open>One step of precedence climbing on a valid tree: from the cursor before the text of the
  tree, \<open>compute_expr\<close> comes to the loop with the value of the tree as the running left
  operand and the token after the tree as the lookahead.\<close>

lemma climb:
  assumes "valid e"
  shows "m \<le> level e \<Longrightarrow> drop p s = render e @ rest \<Longrightarrow> \<not> starts_with_digit rest \<Longrightarrow>
    first_token rest \<noteq> ILLEGAL_CHARACTER \<Longrightarrow> \<not> continues (binds e) (first_token rest) \<Longrightarrow>
    compute_expr_loop n A m (val A e rest) (look s (p + length (render e))) = Some r \<Longrightarrow>
    \<exists>n'. compute_expr n' A m (PS s p t) = Some r"
  using assms
proof (induction e arbitrary: m p rest n r t)
  case (Num w ds)
  from Num.prems(7) have v: "list_all is_space w" "ds \<noteq> []" "list_all isdigit ds" by simp_all
  from Num.prems(2) have d: "drop p s = w @ ds @ rest" by simp
  have a: "compute_atom (Suc n) A (PS s p t) =
     Some (Inr (val A (Num w ds) rest, look s (p + length (render (Num w ds)))))"
    using atom_number[OF d v Num.prems(3)] by (simp add: add.assoc)
  from Num.prems(6) have "compute_expr_loop (Suc n) A m (val A (Num w ds) rest)
      (look s (p + length (render (Num w ds)))) = Some r"
    using fuel_Suc[of n A] by blast
  with a have "compute_expr (Suc (Suc n)) A m (PS s p t) = Some r"
    by (simp add: expr_Suc[of "Suc n"])
  then show ?case by blast
next
  case (Paren w1 e w2)
  from Paren.prems(7) have v: "list_all is_space w1" "valid e" "list_all is_space w2" by simp_all
  define p1 where "p1 = p + length w1 + 1"
  define rest1 where "rest1 = w2 @ '')'' @ rest"
  define q where "q = p1 + length (render e)"
  from Paren.prems(2) have d0: "drop p s = w1 @ ''('' @ (render e @ rest1)" by (simp add: rest1_def)
  have d1: "drop p1 s = render e @ rest1"
    using drop_shift[of p s "w1 @ ''(''" "render e @ rest1"] d0 by (simp add: p1_def)
  have dq: "drop q s = w2 @ '')'' @ rest"
    using drop_shift[OF d1] by (simp add: q_def rest1_def)
  have ft: "first_token rest1 = RIGHT_PAREN"
    using lex_suffix_paren(2)[OF v(3), of rest] by (simp add: first_token_def rest1_def)
  have nd: "\<not> starts_with_digit rest1"
    using v(3) by (cases w2) (auto simp: starts_with_digit_def rest1_def isdigit_def is_space_def)
  have lt: "type (token (look s q)) = RIGHT_PAREN"
    using ft by (simp add: look_type dq rest1_def)
  have st: "compute_expr_loop (Suc 0) A 1 (val A e rest1) (look s q) =
      Some (Inr (val A e rest1, look s q))"
    by (rule loop_stop) (simp_all add: lt continues_def)
  from Paren.IH[OF level_ge_1 d1 nd _ _ st[unfolded q_def] v(2),
      of "tok (p + length w1) 1 LEFT_PAREN"]
  obtain n' where e: "compute_expr n' A 1 (PS s p1 (tok (p + length w1) 1 LEFT_PAREN)) =
      Some (Inr (val A e rest1, look s q))"
    by (auto simp: ft continues_def q_def)
  have a: "compute_atom (Suc n') A (PS s p t) =
      Some (Inr (val A e rest1, look s (q + length w2 + 1)))"
    using atom_paren[OF d0 v(1) e[unfolded p1_def] dq v(3)] .
  have ql: "q + length w2 + 1 = p + length (render (Paren w1 e w2))"
    by (simp add: q_def p1_def)
  define k where "k = max (Suc n') n"
  have a': "compute_atom k A (PS s p t) = Some (Inr (val A e rest1, look s (q + length w2 + 1)))"
    using fuel_mono(1)[OF _ a, of k] by (simp add: k_def)
  have l': "compute_expr_loop k A m (val A (Paren w1 e w2) rest)
      (look s (p + length (render (Paren w1 e w2)))) = Some r"
    using fuel_mono(3)[OF _ Paren.prems(6), of k] by (simp add: k_def)
  have vq: "val A (Paren w1 e w2) rest = val A e rest1" by (simp add: rest1_def)
  note l'' = l'[folded ql, unfolded vq]
  have "compute_expr (Suc k) A m (PS s p t) = Some r"
    using l'' by (simp add: expr_Suc a')
  then show ?case by blast
next
  case (Bin l w b r0)
  from Bin.prems(7) have v: "valid l" "list_all is_space w" "valid r0"
    "left_min b \<le> level l" "right_min b \<le> level r0" by simp_all
  define restl where "restl = w @ op_text b @ render r0 @ rest"
  define q1 where "q1 = p + length (render l)"
  define q2 where "q2 = q1 + length w + length (op_text b)"
  define q3 where "q3 = q2 + length (render r0)"
  define tb where "tb = tok (q1 + length w) (length (op_text b)) (op_token b)"
  from Bin.prems(2) have d0: "drop p s = render l @ restl" by (simp add: restl_def)
  have d1: "drop q1 s = w @ op_text b @ (render r0 @ rest)"
    using drop_shift[OF d0] by (simp add: q1_def restl_def)
  have d2: "drop q2 s = render r0 @ rest"
    using drop_shift[of q1 s "w @ op_text b" "render r0 @ rest"] d1 by (simp add: q2_def add.assoc)
  have rh: "render r0 @ rest = [] \<or> hd (render r0 @ rest) \<noteq> CHR ''*''"
    using render_head[OF v(3), of rest] by simp
  have lk1: "look s q1 = PS s q2 tb"
    using look_op[OF d1 v(2) rh] by (simp add: q2_def tb_def)
  have ftl: "first_token restl = op_token b"
    using lex_suffix_op[OF v(2) rh, of b] by (simp add: first_token_def restl_def)
  have ndl: "\<not> starts_with_digit restl"
    using v(2) by (cases w; cases b)
      (auto simp: starts_with_digit_def restl_def isdigit_def is_space_def)
  have nil: "first_token restl \<noteq> ILLEGAL_CHARACTER" by (cases b) (simp_all add: ftl)
  have stl: "\<not> continues (binds l) (first_token restl)"
    using left_operand_stops[OF v(4)] by (simp add: ftl)
  from Bin.prems(1) have mb: "m \<le> prec (op_entry b)" by simp
  have ml: "m \<le> level l" using mb v(4) by (auto simp: left_min_def split: if_splits)
  have q3l: "q3 = p + length (render (Bin l w b r0))"
    by (simp add: q3_def q2_def q1_def)
  \<comment> \<open>the right operand\<close>
  have str: "\<not> continues (binds r0) (first_token rest)"
    using not_continues_mono[OF Bin.prems(5)[simplified], of "binds r0"] v(5) level_le_binds[of r0]
    by simp
  have lt3: "type (token (look s q3)) = first_token rest"
    using drop_shift[OF d2] by (simp add: look_type q3_def)
  have stop3: "compute_expr_loop (Suc 0) A (right_min b) (val A r0 rest) (look s q3) =
      Some (Inr (val A r0 rest, look s q3))"
    using Bin.prems(4,5) by (intro loop_stop) (simp_all add: lt3)
  from Bin.IH(2)[OF v(5) d2 Bin.prems(3,4) str stop3[unfolded q3_def] v(3), of tb]
  obtain n2 where e2: "compute_expr n2 A (right_min b) (PS s q2 tb) =
      Some (Inr (val A r0 rest, look s q3))"
    by (auto simp: q3_def)
  \<comment> \<open>the loop at the operator\<close>
  define k where "k = max n2 n"
  have e2': "compute_expr k A (right_min b) (PS s q2 tb) = Some (Inr (val A r0 rest, look s q3))"
    using fuel_mono(2)[OF _ e2, of k] by (simp add: k_def)
  have l': "compute_expr_loop k A m (val A (Bin l w b r0) rest) (look s q3) = Some r"
    using fuel_mono(3)[OF _ Bin.prems(6), of k] by (simp add: k_def q3l)
  have "compute_expr_loop (Suc k) A m (val A l restl) (PS s q2 tb) =
      compute_expr_loop k A m (apply_op A b (val A l restl) (val A r0 rest)) (look s q3)"
    by (rule loop_step[OF _ mb e2']) (simp add: tb_def)
  with l' have lp: "compute_expr_loop (Suc k) A m (val A l restl) (look s (p + length (render l))) = Some r"
    by (simp add: lk1 q1_def[symmetric] restl_def)
  from Bin.IH(1)[OF ml d0 ndl nil stl lp v(1)] show ?case .
qed

lemma Parser_new_PS: "Parser_new (Lexer_new s) = PS s 0 (token (Parser_new (Lexer_new s)))"
  by (simp add: Parser_new_def Lexer_new_def PS_def Lx_def)

lemma ends_not_continues: "ends_expression ty \<Longrightarrow> \<not> continues k ty \<and> ty \<noteq> ILLEGAL_CHARACTER"
  by (auto simp: ends_expression_def continues_def)

lemma eval_line_render:
  assumes "valid e" "\<not> starts_with_digit rest" "ends_expression (first_token rest)"
  shows "eval_line A (render e @ rest) = Some (Inr (val A e rest))"
proof -
  define s where "s = render e @ rest"
  note en = ends_not_continues[OF assms(3)]
  have d: "drop 0 s = render e @ rest" by (simp add: s_def)
  have lt: "type (token (look s (0 + length (render e)))) = first_token rest"
    by (simp add: look_type s_def)
  have st: "compute_expr_loop (Suc 0) A 1 (val A e rest) (look s (0 + length (render e))) =
      Some (Inr (val A e rest, look s (0 + length (render e))))"
    using en by (intro loop_stop) (simp_all only: lt not_False_eq_True)
  from climb[OF assms(1) level_ge_1 d assms(2) _ _ st, of "token (Parser_new (Lexer_new s))"] en
  obtain n' where "compute_expr n' A 1 (PS s 0 (token (Parser_new (Lexer_new s)))) =
      Some (Inr (val A e rest, look s (0 + length (render e))))"
    by blast
  then have "compute_expr n' A 1 (Parser_new (Lexer_new s)) =
      Some (Inr (val A e rest, look s (0 + length (render e))))"
    using Parser_new_PS[of s] by simp
  from eval_line_Some[OF this] show ?thesis by (simp add: s_def)
qed

lemma first_token_spaces: "list_all is_space ws \<Longrightarrow> first_token ws = END_OF_FILE"
proof -
  assume "list_all is_space ws"
  then have "dropWhile is_space ws = []" by (simp add: list_all_iff)
  from lex_suffix_Nil[OF this] show ?thesis by (simp add: first_token_def)
qed

lemma spaces_no_digit: "list_all is_space ws \<Longrightarrow> \<not> starts_with_digit ws"
  by (cases ws) (auto simp: starts_with_digit_def is_space_def isdigit_def)

lemma takeWhile_digits:
  assumes "list_all isdigit ds" "r = [] \<or> delimiter (hd r)"
  shows "takeWhile isdigit (ds @ r) = ds"
proof -
  from assms(1) have a: "\<And>x. x \<in> set ds \<Longrightarrow> isdigit x" by (simp add: list_all_iff)
  from assms(2) have "takeWhile isdigit r = []"
    by (cases r) (auto simp: delimiter_def is_space_def isdigit_def)
  with a show ?thesis by (simp add: takeWhile_append2)
qed

lemma int_arith_exact: "exact_arith int_arith Fin PosInf"
  unfolding exact_arith_def
proof (intro conjI allI impI)
  fix ds r
  assume "ds \<noteq> [] \<and> list_all isdigit ds \<and> decimal ds \<le> 2 ^ 53 \<and> (r = [] \<or> delimiter (hd r))"
  then show "d_strtod int_arith (ds @ r) = Fin (decimal ds)"
    by (simp add: int_arith_def takeWhile_digits)
qed (simp_all add: int_arith_def)





lemma Lexer_Lx:
  "lexer_end L = length (source L) \<Longrightarrow> L = Lx (source L) (current_position L)"
  by (simp add: Lx_def)





lemma exact_strtod:
  "exact_arith A emb pinf \<Longrightarrow> ds \<noteq> [] \<Longrightarrow> list_all isdigit ds \<Longrightarrow> decimal ds \<le> 2 ^ 53 \<Longrightarrow>
   r = [] \<or> delimiter (hd r) \<Longrightarrow> d_strtod A (ds @ r) = emb (decimal ds)"
  by (simp add: exact_arith_def)

lemma exact_add:
  "exact_arith A emb pinf \<Longrightarrow> \<bar>a\<bar> \<le> 2 ^ 53 \<Longrightarrow> \<bar>b\<bar> \<le> 2 ^ 53 \<Longrightarrow> \<bar>a + b\<bar> \<le> 2 ^ 53 \<Longrightarrow>
   d_add A (emb a) (emb b) = emb (a + b)"
  by (simp add: exact_arith_def)

lemma exact_sub:
  "exact_arith A emb pinf \<Longrightarrow> \<bar>a\<bar> \<le> 2 ^ 53 \<Longrightarrow> \<bar>b\<bar> \<le> 2 ^ 53 \<Longrightarrow> \<bar>a - b\<bar> \<le> 2 ^ 53 \<Longrightarrow>
   d_sub A (emb a) (emb b) = emb (a - b)"
  by (simp add: exact_arith_def)

lemma exact_mul:
  "exact_arith A emb pinf \<Longrightarrow> \<bar>a\<bar> \<le> 2 ^ 53 \<Longrightarrow> \<bar>b\<bar> \<le> 2 ^ 53 \<Longrightarrow> \<bar>a * b\<bar> \<le> 2 ^ 53 \<Longrightarrow>
   a * b \<noteq> 0 \<or> (0 \<le> a \<and> 0 \<le> b) \<Longrightarrow> d_mul A (emb a) (emb b) = emb (a * b)"
  by (simp add: exact_arith_def)

lemma exact_div_zero:
  "exact_arith A emb pinf \<Longrightarrow> 0 < a \<Longrightarrow> a \<le> 2 ^ 53 \<Longrightarrow> d_div A (emb a) (emb 0) = pinf"
  by (simp add: exact_arith_def)

lemma exact_pow:
  "exact_arith A emb pinf \<Longrightarrow> \<bar>a\<bar> \<le> 2 ^ 53 \<Longrightarrow> 0 \<le> b \<Longrightarrow> b \<le> 2 ^ 53 \<Longrightarrow>
   \<bar>a ^ nat b\<bar> \<le> 2 ^ 53 \<Longrightarrow> d_pow A (emb a) (emb b) = emb (a ^ nat b)"
  by (simp add: exact_arith_def)

lemma exact_inj:
  "exact_arith A emb pinf \<Longrightarrow> \<bar>a\<bar> \<le> 2 ^ 53 \<Longrightarrow> \<bar>b\<bar> \<le> 2 ^ 53 \<Longrightarrow> emb a = emb b \<Longrightarrow> a = b"
  by (simp add: exact_arith_def)

text \<open>A one-digit number followed by a delimiter or by nothing.\<close>

lemma exact_digit:
  assumes "exact_arith A emb pinf" "isdigit c" "r = [] \<or> delimiter (hd r)"
  shows "d_strtod A (c # r) = emb (digit_value c)"
proof -
  from assms(2) have "digit_value c \<le> 9"
    by (auto simp: isdigit_def digit_value_def)
  then have "decimal [c] \<le> 2 ^ 53" by (simp add: decimal_def)
  from exact_strtod[OF assms(1) _ _ this assms(3)] assms(2) show ?thesis
    by (simp add: decimal_def)
qed

lemma digit_values:
  "digit_value CHR ''0'' = 0" "digit_value CHR ''1'' = 1" "digit_value CHR ''2'' = 2"
  "digit_value CHR ''3'' = 3" "digit_value CHR ''4'' = 4" "digit_value CHR ''5'' = 5"
  "digit_value CHR ''8'' = 8"
  by (simp_all add: digit_value_def)

lemma eval_sym_examples:
  "eval_line sym_arith ''8 - 3 - 2'' =
     Some (Inr (SSub (SSub (SNum ''8 - 3 - 2'') (SNum ''3 - 2'')) (SNum ''2'')))"
  "eval_line sym_arith ''2 + 3 * 4'' =
     Some (Inr (SAdd (SNum ''2 + 3 * 4'') (SMul (SNum ''3 * 4'') (SNum ''4''))))"
  "eval_line sym_arith ''(2 + 3) * 4'' =
     Some (Inr (SMul (SAdd (SNum ''2 + 3) * 4'') (SNum ''3) * 4'')) (SNum ''4'')))"
  "eval_line sym_arith ''2 ** 3 ** 2'' =
     Some (Inr (SPow (SNum ''2 ** 3 ** 2'') (SPow (SNum ''3 ** 2'') (SNum ''2''))))"
  "eval_line sym_arith ''1 + 2 )'' = Some (Inr (SAdd (SNum ''1 + 2 )'') (SNum ''2 )'')))"
  "eval_line sym_arith ''1 + 2'' = Some (Inr (SAdd (SNum ''1 + 2'') (SNum ''2'')))"
  "eval_line sym_arith ''1 2'' = Some (Inr (SNum ''1 2''))"
  "eval_line sym_arith ''0 - 5'' = Some (Inr (SSub (SNum ''0 - 5'') (SNum ''5'')))"
  "eval_line sym_arith ''1 / 0'' = Some (Inr (SDiv (SNum ''1 / 0'') (SNum ''0'')))"
  by code_simp+

lemma eval_examples:
  "eval_line A ''8 - 3 - 2'' =
     Some (Inr (d_sub A (d_sub A (d_strtod A ''8 - 3 - 2'') (d_strtod A ''3 - 2'')) (d_strtod A ''2'')))"
  "eval_line A ''2 + 3 * 4'' =
     Some (Inr (d_add A (d_strtod A ''2 + 3 * 4'') (d_mul A (d_strtod A ''3 * 4'') (d_strtod A ''4''))))"
  "eval_line A ''(2 + 3) * 4'' =
     Some (Inr (d_mul A (d_add A (d_strtod A ''2 + 3) * 4'') (d_strtod A ''3) * 4'')) (d_strtod A ''4'')))"
  "eval_line A ''2 ** 3 ** 2'' =
     Some (Inr (d_pow A (d_strtod A ''2 ** 3 ** 2'') (d_pow A (d_strtod A ''3 ** 2'') (d_strtod A ''2''))))"
  "eval_line A ''1 + 2 )'' = Some (Inr (d_add A (d_strtod A ''1 + 2 )'') (d_strtod A ''2 )'')))"
  "eval_line A ''1 + 2'' = Some (Inr (d_add A (d_strtod A ''1 + 2'') (d_strtod A ''2'')))"
  "eval_line A ''1 2'' = Some (Inr (d_strtod A ''1 2''))"
  "eval_line A ''0 - 5'' = Some (Inr (d_sub A (d_strtod A ''0 - 5'') (d_strtod A ''5'')))"
  "eval_line A ''1 / 0'' = Some (Inr (d_div A (d_strtod A ''1 / 0'') (d_strtod A ''0'')))"
  by (simp_all add: eval_line_interp[of A] eval_sym_examples)

lemma exact_examples:
  assumes ex: "exact_arith A emb pinf"
  shows "eval_line A ''8 - 3 - 2'' = Some (Inr (emb 3))"
    and "eval_line A ''2 + 3 * 4'' = Some (Inr (emb 14))"
    and "eval_line A ''(2 + 3) * 4'' = Some (Inr (emb 20))"
    and "eval_line A ''2 ** 3 ** 2'' = Some (Inr (emb 512))"
    and "eval_line A ''1 + 2 )'' = Some (Inr (emb 3))"
    and "eval_line A ''1 + 2'' = Some (Inr (emb 3))"
    and "eval_line A ''1 2'' = Some (Inr (emb 1))"
    and "eval_line A ''0 - 5'' = Some (Inr (emb (- 5)))"
    and "eval_line A ''1 / 0'' = Some (Inr pinf)"
proof -
  have d: "d_strtod A (c # r) = emb (digit_value c)" if "isdigit c" "r = [] \<or> delimiter (hd r)" for c r
    using exact_digit[OF ex that] .
  have s: "d_strtod A ''8 - 3 - 2'' = emb 8" "d_strtod A ''3 - 2'' = emb 3" "d_strtod A ''2'' = emb 2"
    "d_strtod A ''2 + 3 * 4'' = emb 2" "d_strtod A ''3 * 4'' = emb 3" "d_strtod A ''4'' = emb 4"
    "d_strtod A ''2 + 3) * 4'' = emb 2" "d_strtod A ''3) * 4'' = emb 3"
    "d_strtod A ''2 ** 3 ** 2'' = emb 2" "d_strtod A ''3 ** 2'' = emb 3"
    "d_strtod A ''1 + 2 )'' = emb 1" "d_strtod A ''2 )'' = emb 2"
    "d_strtod A ''1 + 2'' = emb 1" "d_strtod A ''1 2'' = emb 1"
    "d_strtod A ''0 - 5'' = emb 0" "d_strtod A ''5'' = emb 5"
    "d_strtod A ''1 / 0'' = emb 1" "d_strtod A ''0'' = emb 0"
    by (subst d; simp add: isdigit_def delimiter_def is_space_def digit_values)+
  have a: "d_sub A (emb 8) (emb 3) = emb 5" "d_sub A (emb 5) (emb 2) = emb 3"
    "d_sub A (emb 0) (emb 5) = emb (- 5)"
    using exact_sub[OF ex, of 8 3] exact_sub[OF ex, of 5 2] exact_sub[OF ex, of 0 5] by simp_all
  have m: "d_mul A (emb 3) (emb 4) = emb 12" "d_mul A (emb 5) (emb 4) = emb 20"
    using exact_mul[OF ex, of 3 4] exact_mul[OF ex, of 5 4] by simp_all
  have p: "d_add A (emb 2) (emb 12) = emb 14" "d_add A (emb 2) (emb 3) = emb 5"
    "d_add A (emb 1) (emb 2) = emb 3"
    using exact_add[OF ex, of 2 12] exact_add[OF ex, of 2 3] exact_add[OF ex, of 1 2] by simp_all
  have w: "d_pow A (emb 3) (emb 2) = emb 9" "d_pow A (emb 2) (emb 9) = emb 512"
    using exact_pow[OF ex, of 3 2] exact_pow[OF ex, of 2 9] by simp_all
  have z: "d_div A (emb 1) (emb 0) = pinf" using exact_div_zero[OF ex, of 1] by simp
  show "eval_line A ''8 - 3 - 2'' = Some (Inr (emb 3))" by (simp add: eval_examples s a)
  show "eval_line A ''2 + 3 * 4'' = Some (Inr (emb 14))" by (simp add: eval_examples s m p)
  show "eval_line A ''(2 + 3) * 4'' = Some (Inr (emb 20))" by (simp add: eval_examples s m p)
  show "eval_line A ''2 ** 3 ** 2'' = Some (Inr (emb 512))" by (simp add: eval_examples s w)
  show "eval_line A ''1 + 2 )'' = Some (Inr (emb 3))" by (simp add: eval_examples s p)
  show "eval_line A ''1 + 2'' = Some (Inr (emb 3))" by (simp add: eval_examples s p)
  show "eval_line A ''1 2'' = Some (Inr (emb 1))" by (simp add: eval_examples s)
  show "eval_line A ''0 - 5'' = Some (Inr (emb (- 5)))" by (simp add: eval_examples s a)
  show "eval_line A ''1 / 0'' = Some (Inr pinf)" by (simp add: eval_examples s z)
qed

text \<open>C1. The table gives addition and subtraction precedence 1, multiplication and
  division precedence 2, all four left-associative, and the power precedence 3,
  right-associative. For every valid expression, that is every tree grouped as this
  table dictates (equal-precedence left-associative operators grouped from the left),
  written out with any whitespace and followed by whitespace only, \<open>parse\<close> returns the
  value of the tree. Where the platform's arithmetic is exact on small integers,
  \<open>8 - 3 - 2\<close> gives 3, \<open>2 + 3 * 4\<close> gives 14 and \<open>(2 + 3) * 4\<close> gives 20.\<close>

theorem precedence_and_grouping:
  "map (\<lambda>b. (prec (op_entry b), assoc (op_entry b))) [OpAdd, OpSub, OpMul, OpDiv, OpPow]
     = [(1, LEFT), (1, LEFT), (2, LEFT), (2, LEFT), (3, RIGHT)]
   \<and> (valid e \<and> list_all is_space ws \<longrightarrow>
        eval_line A (render e @ ws) = Some (Inr (val A e ws)))
   \<and> (exact_arith A emb pinf \<longrightarrow>
        eval_line A ''8 - 3 - 2'' = Some (Inr (emb 3))
        \<and> eval_line A ''2 + 3 * 4'' = Some (Inr (emb 14))
        \<and> eval_line A ''(2 + 3) * 4'' = Some (Inr (emb 20)))"
proof (intro conjI impI)
  show "map (\<lambda>b. (prec (op_entry b), assoc (op_entry b))) [OpAdd, OpSub, OpMul, OpDiv, OpPow]
     = [(1, LEFT), (1, LEFT), (2, LEFT), (2, LEFT), (3, RIGHT)]"
    by (simp add: op_entry_simps)
next
  assume a: "valid e \<and> list_all is_space ws"
  then have "ends_expression (first_token ws)"
    by (simp add: first_token_spaces ends_expression_def)
  with a show "eval_line A (render e @ ws) = Some (Inr (val A e ws))"
    by (simp add: eval_line_render spaces_no_digit)
next
  assume "exact_arith A emb pinf"
  then show "eval_line A ''8 - 3 - 2'' = Some (Inr (emb 3))" by (rule exact_examples(1))
next
  assume "exact_arith A emb pinf"
  then show "eval_line A ''2 + 3 * 4'' = Some (Inr (emb 14))" by (rule exact_examples(2))
next
  assume "exact_arith A emb pinf"
  then show "eval_line A ''(2 + 3) * 4'' = Some (Inr (emb 20))" by (rule exact_examples(3))
qed

lemma val_example_mul:
  "val int_arith (Bin (Num [] ''2'') '' '' OpAdd (Bin (Num '' '' ''3'') '' '' OpMul (Num '' '' ''4''))) '' ''
     = Fin 14"
  by code_simp

lemma valid_example_mul:
  "valid (Bin (Num [] ''2'') '' '' OpAdd (Bin (Num '' '' ''3'') '' '' OpMul (Num '' '' ''4'')))"
  by (simp add: is_space_def isdigit_def left_min_def right_min_def op_entry_simps)

theorem precedence_and_grouping_witness:
  "eval_line int_arith ''2 + 3 * 4 '' = Some (Inr (Fin 14))
   \<and> eval_line int_arith ''8 - 3 - 2'' = Some (Inr (Fin 3))
   \<and> eval_line int_arith ''2 + 3 * 4'' = Some (Inr (Fin 14))
   \<and> eval_line int_arith ''(2 + 3) * 4'' = Some (Inr (Fin 20))"
proof -
  define e where
    "e = Bin (Num [] ''2'') '' '' OpAdd (Bin (Num '' '' ''3'') '' '' OpMul (Num '' '' ''4''))"
  have s: "list_all is_space '' ''" by (simp add: is_space_def)
  have v: "valid e" unfolding e_def by (rule valid_example_mul)
  note t = precedence_and_grouping[of e "'' ''" int_arith Fin PosInf]
  from conjunct1[OF conjunct2[OF t]] v s
  have "eval_line int_arith (render e @ '' '') = Some (Inr (val int_arith e '' ''))" by blast
  then have 1: "eval_line int_arith ''2 + 3 * 4 '' = Some (Inr (Fin 14))"
    unfolding e_def val_example_mul by simp
  from conjunct2[OF conjunct2[OF t]] int_arith_exact
  have 2: "eval_line int_arith ''8 - 3 - 2'' = Some (Inr (Fin 3))
        \<and> eval_line int_arith ''2 + 3 * 4'' = Some (Inr (Fin 14))
        \<and> eval_line int_arith ''(2 + 3) * 4'' = Some (Inr (Fin 20))" by blast
  from 1 2 show ?thesis by blast
qed

text \<open>C2. The power is right-associative: its entry in the table is right-associative, so
  the right operand is read at the operator's own precedence, unchanged, and a chain
  \<open>a ** b ** c\<close> of numbers or parenthesised expressions evaluates as
  \<open>pow(a, pow(b, c))\<close>. Where the platform's arithmetic is exact on small integers,
  \<open>2 ** 3 ** 2\<close> gives 512, which is not 64.\<close>

theorem power_right_associative:
  "assoc (OperatorMap ! nat (enum_value POWER)) = RIGHT
   \<and> right_min OpPow = prec (op_entry OpPow)
   \<and> (valid a \<and> valid b \<and> valid c \<and> level a = 4 \<and> level b = 4 \<and> level c = 4
       \<and> list_all is_space w1 \<and> list_all is_space w2 \<and> list_all is_space ws \<longrightarrow>
       eval_line A (render a @ w1 @ ''**'' @ render b @ w2 @ ''**'' @ render c @ ws) =
         Some (Inr (d_pow A (val A a (w1 @ ''**'' @ render b @ w2 @ ''**'' @ render c @ ws))
                      (d_pow A (val A b (w2 @ ''**'' @ render c @ ws)) (val A c ws)))))
   \<and> (exact_arith A emb pinf \<longrightarrow>
        eval_line A ''2 ** 3 ** 2'' = Some (Inr (emb 512)) \<and> emb 512 \<noteq> emb 64)"
proof (intro conjI impI)
  show "assoc (OperatorMap ! nat (enum_value POWER)) = RIGHT" by (simp add: OperatorMap_def)
  show "right_min OpPow = prec (op_entry OpPow)" by (simp add: right_min_def op_entry_simps)
next
  assume h: "valid a \<and> valid b \<and> valid c \<and> level a = 4 \<and> level b = 4 \<and> level c = 4
       \<and> list_all is_space w1 \<and> list_all is_space w2 \<and> list_all is_space ws"
  define e where "e = Bin a w1 OpPow (Bin b w2 OpPow c)"
  from h have v: "valid e"
    by (simp add: e_def left_min_def right_min_def op_entry_simps)
  from h have "ends_expression (first_token ws)"
    by (simp add: first_token_spaces ends_expression_def)
  with h v have "eval_line A (render e @ ws) = Some (Inr (val A e ws))"
    by (simp add: eval_line_render spaces_no_digit)
  then show "eval_line A (render a @ w1 @ ''**'' @ render b @ w2 @ ''**'' @ render c @ ws) =
         Some (Inr (d_pow A (val A a (w1 @ ''**'' @ render b @ w2 @ ''**'' @ render c @ ws))
                      (d_pow A (val A b (w2 @ ''**'' @ render c @ ws)) (val A c ws))))"
    by (simp add: e_def)
next
  assume "exact_arith A emb pinf"
  then show "eval_line A ''2 ** 3 ** 2'' = Some (Inr (emb 512))" by (rule exact_examples(4))
next
  assume ex: "exact_arith A emb pinf"
  show "emb 512 \<noteq> emb 64"
  proof
    assume "emb 512 = emb 64"
    from exact_inj[OF ex _ _ this] show False by simp
  qed
qed

lemma val_example_pow:
  "d_pow int_arith (val int_arith (Num [] ''2'') ('' '' @ ''**'' @ render (Num '' '' ''3'') @ '' '' @ ''**'' @ render (Num '' '' ''2'') @ []))
     (d_pow int_arith (val int_arith (Num '' '' ''3'') ('' '' @ ''**'' @ render (Num '' '' ''2'') @ []))
        (val int_arith (Num '' '' ''2'') [])) = Fin 512"
  by code_simp

theorem power_right_associative_witness:
  "eval_line int_arith ''2 ** 3 ** 2'' = Some (Inr (Fin 512)) \<and> Fin 512 \<noteq> Fin 64"
proof -
  have v: "valid (Num [] ''2'') \<and> valid (Num '' '' ''3'') \<and> valid (Num '' '' ''2'')
      \<and> level (Num [] ''2'') = 4 \<and> level (Num '' '' ''3'') = 4 \<and> level (Num '' '' ''2'') = 4
      \<and> list_all is_space '' '' \<and> list_all is_space '' '' \<and> list_all is_space []"
    by (simp add: is_space_def isdigit_def)
  note t = power_right_associative[of "Num [] ''2''" "Num '' '' ''3''" "Num '' '' ''2''"
      "'' ''" "'' ''" "[]" int_arith Fin PosInf]
  from conjunct1[OF conjunct2[OF conjunct2[OF t]]] v
  have "eval_line int_arith (render (Num [] ''2'') @ '' '' @ ''**'' @ render (Num '' '' ''3'')
        @ '' '' @ ''**'' @ render (Num '' '' ''2'') @ []) = Some (Inr (Fin 512))"
    unfolding val_example_pow by blast
  then have 1: "eval_line int_arith ''2 ** 3 ** 2'' = Some (Inr (Fin 512))" by simp
  from conjunct2[OF conjunct2[OF conjunct2[OF t]]] int_arith_exact
  have "Fin 512 \<noteq> Fin 64" by blast
  with 1 show ?thesis by blast
qed






lemma empty_line_lookahead:
  "token (Parser_next_token (Parser_new (Lexer_new []))) =
     \<lparr>string_data = 0, string_size = 1, type = END_OF_FILE\<rparr>"
  by code_simp

lemma empty_line_location:
  "show_error_location (Parser_next_token (Parser_new (Lexer_new []))) = Inl (InvalidRead 1)"
  by code_simp

text \<open>C5 fails on the empty line. Its lookahead is the end-of-input token at offset 0, and
  the rendering of the error location never places a caret: after stepping over the
  terminator it reads the buffer at offset 1, outside the string.\<close>

theorem empty_line_no_caret:
  "token (Parser_next_token (Parser_new (Lexer_new []))) =
     \<lparr>string_data = 0, string_size = 1, type = END_OF_FILE\<rparr>
   \<and> show_error_location (Parser_next_token (Parser_new (Lexer_new []))) = Inl (InvalidRead 1)"
  using empty_line_lookahead empty_line_location by blast




lemma eval_sym_leading_minus:
  "eval_line sym_arith ''-5'' =
     Some (Inl (ParserException (msg_unexpected_character @ ''-5'' @ [LF] @ ''^'')))"
  by code_simp

lemma atom_rejects:
  assumes "type (token (look s 0)) \<noteq> LEFT_PAREN" "type (token (look s 0)) \<noteq> END_OF_FILE"
    "type (token (look s 0)) \<noteq> NUMBER"
  shows "eval_line A s = Some (Inl (report_error (look s 0) msg_unexpected_character))"
proof -
  have n: "Parser_next_token (Parser_new (Lexer_new s)) = look s 0"
    by (subst Parser_new_PS) (rule Parser_next_token_look)
  have "compute_atom (Suc 0) A (Parser_new (Lexer_new s)) =
      Some (Inl (report_error (look s 0) msg_unexpected_character))"
    using assms by (simp add: atom_Suc Let_def n)
  then have "compute_expr (Suc (Suc 0)) A 1 (Parser_new (Lexer_new s)) =
      Some (Inl (report_error (look s 0) msg_unexpected_character))"
    by (simp add: expr_Suc[of "Suc 0"])
  from eval_line_Some[OF this] show ?thesis by simp
qed

lemma look_0_wf: "wf_state s (look s 0)"
  using next_token_wf(1)[OF wf_state_new[of s]]
  by (subst (asm) Parser_new_PS) (simp add: Parser_next_token_look)

lemma look_0_data: "string_data (token (look s 0)) = length (takeWhile is_space s)"
proof -
  obtain ty w sz adv where ls: "lex_suffix s = (ty, w, sz, adv)" by (metis prod_cases4)
  from lex_suffix_bounds(3)[OF ls] ls show ?thesis by (simp add: look_def)
qed

text \<open>C7, as the code has it. There is no unary sign: a line whose first token is \<open>-\<close> ends
  in an error, the unexpected-character one with the caret under the \<open>-\<close> on a line
  without line feed. The negation of a number is written as a subtraction from zero:
  \<open>0 - 5\<close> is \<open>0\<close> minus \<open>5\<close>, that is -5 where the arithmetic is exact.\<close>

theorem no_unary_minus:
  "(first_token s = SUBTRACT \<longrightarrow> (\<exists>f. eval_line A s = Some (Inl f)))
   \<and> (first_token s = SUBTRACT \<and> plain_line s \<longrightarrow>
        eval_line A s = Some (Inl (ParserException
          (msg_unexpected_character @ shown_line s @ [LF]
             @ replicate (length (takeWhile is_space s)) (CHR '' '') @ ''^''))))
   \<and> eval_line A ''0 - 5'' = Some (Inr (d_sub A (d_strtod A ''0 - 5'') (d_strtod A ''5'')))
   \<and> (exact_arith A emb pinf \<longrightarrow> eval_line A ''0 - 5'' = Some (Inr (emb (- 5))))"
proof (intro conjI impI)
  assume f: "first_token s = SUBTRACT"
  then have "type (token (look s 0)) = SUBTRACT" by (simp add: look_type)
  then have "eval_line A s = Some (Inl (report_error (look s 0) msg_unexpected_character))"
    by (intro atom_rejects) simp_all
  then show "\<exists>f. eval_line A s = Some (Inl f)" by blast
next
  assume f: "first_token s = SUBTRACT \<and> plain_line s"
  then have "type (token (look s 0)) = SUBTRACT" by (simp add: look_type)
  then have "eval_line A s = Some (Inl (report_error (look s 0) msg_unexpected_character))"
    by (intro atom_rejects) simp_all
  moreover from f have "report_error (look s 0) msg_unexpected_character =
      ParserException (msg_unexpected_character
        @ error_location_text s (string_data (token (look s 0))))"
    by (intro report_error_plain look_0_wf) simp
  ultimately show "eval_line A s = Some (Inl (ParserException
          (msg_unexpected_character @ shown_line s @ [LF]
             @ replicate (length (takeWhile is_space s)) (CHR '' '') @ ''^'')))"
    by (simp add: look_0_data error_location_text_def)
next
  show "eval_line A ''0 - 5'' = Some (Inr (d_sub A (d_strtod A ''0 - 5'') (d_strtod A ''5'')))"
    by (rule eval_examples(8))
next
  assume "exact_arith A emb pinf"
  then show "eval_line A ''0 - 5'' = Some (Inr (emb (- 5)))" by (rule exact_examples(8))
qed

lemma first_token_minus: "first_token ''-5'' = SUBTRACT"
  by code_simp

lemma shown_line_minus: "shown_line ''-5'' = ''-5''"
  by code_simp

theorem no_unary_minus_witness:
  "eval_line int_arith ''-5'' =
     Some (Inl (ParserException (msg_unexpected_character @ ''-5'' @ [LF] @ ''^'')))
   \<and> eval_line int_arith ''0 - 5'' = Some (Inr (Fin (- 5)))"
proof -
  have p: "first_token ''-5'' = SUBTRACT \<and> plain_line ''-5''"
    by (simp add: first_token_minus plain_line_def)
  note t = no_unary_minus[of "''-5''" int_arith Fin PosInf]
  from conjunct1[OF conjunct2[OF t]] p
  have "eval_line int_arith ''-5'' = Some (Inl (ParserException
          (msg_unexpected_character @ shown_line ''-5'' @ [LF]
             @ replicate (length (takeWhile is_space ''-5'')) (CHR '' '') @ ''^'')))" by blast
  then have 1: "eval_line int_arith ''-5'' =
     Some (Inl (ParserException (msg_unexpected_character @ ''-5'' @ [LF] @ ''^'')))"
    unfolding shown_line_minus by (simp add: is_space_def)
  from conjunct2[OF conjunct2[OF conjunct2[OF t]]] int_arith_exact
  have "eval_line int_arith ''0 - 5'' = Some (Inr (Fin (- 5)))" by blast
  with 1 show ?thesis by blast
qed

text \<open>The claim C7 as stated fails: \<open>-5\<close> is not evaluated to a negated value, it raises the
  unexpected-character error at the \<open>-\<close>.\<close>

theorem leading_minus_counterexample:
  "eval_line sym_arith ''-5'' =
     Some (Inl (ParserException (msg_unexpected_character @ ''-5'' @ [LF] @ ''^'')))"
  by (rule eval_sym_leading_minus)

text \<open>C8. Division is not special-cased: on a division token \<open>compute_op\<close> returns the
  platform's quotient whatever the divisor and raises nothing, and \<open>1 / 0\<close> evaluates to
  the quotient of the two numbers, which is positive infinity on a platform that divides
  a positive number by zero so.\<close>

theorem division_by_zero_not_special:
  "(type t = DIVIDE \<longrightarrow> compute_op A P t lhs rhs = Inr (d_div A lhs rhs))
   \<and> eval_line A ''1 / 0'' = Some (Inr (d_div A (d_strtod A ''1 / 0'') (d_strtod A ''0'')))
   \<and> (exact_arith A emb pinf \<longrightarrow> eval_line A ''1 / 0'' = Some (Inr pinf))"
  using eval_examples(9)[of A] exact_examples(9)[of A emb pinf]
  by (simp add: compute_op_def)

theorem division_by_zero_not_special_witness:
  "compute_op int_arith (Parser_new (Lexer_new ''1 / 0''))
      \<lparr>string_data = 2, string_size = 1, type = DIVIDE\<rparr> (Fin 1) (Fin 0) = Inr PosInf
   \<and> eval_line int_arith ''1 / 0'' = Some (Inr PosInf)"
proof -
  note t = division_by_zero_not_special[of "\<lparr>string_data = 2, string_size = 1, type = DIVIDE\<rparr>"
      int_arith "Parser_new (Lexer_new ''1 / 0'')" "Fin 1" "Fin 0" Fin PosInf]
  from conjunct1[OF t]
  have 1: "compute_op int_arith (Parser_new (Lexer_new ''1 / 0''))
      \<lparr>string_data = 2, string_size = 1, type = DIVIDE\<rparr> (Fin 1) (Fin 0) = Inr PosInf"
    by (simp add: int_arith_def)
  from conjunct2[OF conjunct2[OF t]] int_arith_exact
  have "eval_line int_arith ''1 / 0'' = Some (Inr PosInf)" by blast
  with 1 show ?thesis by blast
qed

lemma eval_sym_empty: "eval_line sym_arith [] = Some (Inl (InvalidRead 1))"
  by code_simp

text \<open>C10 fails on the empty line: evaluation ends in the read of the buffer at offset 1
  by the error-location rendering, while the buffer of the empty string holds its
  terminator at offset 0 only.\<close>

theorem empty_line_invalid_read:
  "eval_line A [] = Some (Inl (InvalidRead 1))"
  by (simp add: eval_line_interp[of A] eval_sym_empty)

end
